theory Spec2Isabelle
  imports Main
begin

section \<open>Characters\<close>

text \<open>
  The C++ \<open>char\<close> is a byte, as \<^typ>\<open>char\<close> is.  The character classes of the lexer
  compare bytes with ASCII bounds; every bound is below 128, so the signedness of the C++
  \<open>char\<close> does not matter and the comparison is made on the byte's value.
\<close>

definition LF :: char where "LF = CHR 0x0A"
definition CR :: char where "CR = CHR 0x0D"
definition TAB :: char where "TAB = CHR 0x09"
definition NUL :: char where "NUL = CHR 0x00"
definition QUOTE :: char where "QUOTE = CHR 0x22"
definition BACKSLASH :: char where "BACKSLASH = CHR 0x5C"

text \<open>\<open>std::char_traits<char>::eof()\<close> is \<open>-1\<close>; converted to \<open>char\<close> it is the byte 255.\<close>

definition EOF_char :: char where "EOF_char = CHR 0xFF"

definition isDigit :: "char \<Rightarrow> bool" where
  "isDigit c = (48 \<le> (of_char c :: nat) \<and> (of_char c :: nat) \<le> 57)"

definition isAlpha :: "char \<Rightarrow> bool" where
  "isAlpha c = ((97 \<le> (of_char c :: nat) \<and> (of_char c :: nat) \<le> 122) \<or>
                (65 \<le> (of_char c :: nat) \<and> (of_char c :: nat) \<le> 90))"

section \<open>The raw stream\<close>

text \<open>
  \<open>CLIInputStream\<close> is an interface (\<open>peek\<close>, \<open>get\<close>, \<open>unget\<close>); \<open>CLIStdInputStream\<close>
  implements it over a \<open>std::istream\<close>.  The stream is a text with a read position:
  the characters read so far (most recent first) and the characters still to come.
  At the end of the text \<open>peek\<close> returns \<open>eof()\<close> converted to \<open>char\<close> and \<open>get\<close> fails,
  leaving its argument as it was.
\<close>

record raw_stream =
  rs_before :: string
  rs_after :: string

definition raw_peek :: "raw_stream \<Rightarrow> char" where
  "raw_peek r = (case rs_after r of [] \<Rightarrow> EOF_char | c # _ \<Rightarrow> c)"

definition raw_get :: "raw_stream \<Rightarrow> char option \<times> raw_stream" where
  "raw_get r = (case rs_after r of
                  [] \<Rightarrow> (None, r)
                | c # cs \<Rightarrow> (Some c, \<lparr>rs_before = c # rs_before r, rs_after = cs\<rparr>))"

text \<open>\<open>unget\<close> at the start of the text fails in the stream and moves nothing.\<close>

definition raw_unget :: "raw_stream \<Rightarrow> raw_stream" where
  "raw_unget r = (case rs_before r of
                    [] \<Rightarrow> r
                  | c # cs \<Rightarrow> \<lparr>rs_before = cs, rs_after = c # rs_after r\<rparr>)"

section \<open>Errors\<close>

datatype token_type =
    Tok_Identifier | Tok_String | Tok_Integer | Tok_Float
  | Tok_LeftParen | Tok_RightParen | Tok_LeftBracket | Tok_RightBracket
  | Tok_LeftCurly | Tok_RightCurly | Tok_Comma | Tok_EndOfLine
  | Tok_Comment | Tok_EndOfFile | Tok_Unknown

record token =
  tok_type :: token_type
  tok_value :: string
  tok_begin :: int
  tok_end :: int

text \<open>
  Every error is a \<open>std::runtime_error\<close> in the source.  The constructors name the function
  of \<open>ErrorReporter\<close> that built it (with its arguments), the two \<open>runtime_error\<close>s thrown
  directly, the exceptions of \<open>std::stoll\<close> and \<open>std::get\<close>, and a failed \<open>assert\<close>.
\<close>

datatype error =
    UnexpectedTokenType token_type token
  | UnexpectedTokenText string token
  | UnexpectedToken token
  | MismatchedToken token
  | UnknownToken token
  | CannotUnget
  | NoWayToReachHere
  | StollFailed
  | AssertionFailed
  | BadVariantAccess

section \<open>The stream hook\<close>

record hook =
  stream :: raw_stream
  stream_position :: int
  consumed_chars :: string
  position :: int
  line_number :: int
  current_line_number :: int

definition CLIInputStreamHook :: "raw_stream \<Rightarrow> hook" where
  "CLIInputStreamHook r =
     \<lparr>stream = r, stream_position = 0, consumed_chars = [], position = 0,
      line_number = 1, current_line_number = 1\<rparr>"

definition hook_peek :: "hook \<Rightarrow> char" where
  "hook_peek h = raw_peek (stream h)"

definition hook_get :: "hook \<Rightarrow> char option \<times> hook" where
  "hook_get h =
     (case raw_get (stream h) of
        (Some c, r) \<Rightarrow>
          (Some c, h\<lparr>stream := r,
                     stream_position := stream_position h + 1,
                     consumed_chars := consumed_chars h @ [c],
                     current_line_number :=
                       (if c = LF then current_line_number h + 1 else current_line_number h)\<rparr>)
      | (None, r) \<Rightarrow> (None, h\<lparr>stream := r\<rparr>))"

definition hook_unget :: "hook \<Rightarrow> error + hook" where
  "hook_unget h =
     (if consumed_chars h = [] then Inl CannotUnget
      else Inr (h\<lparr>stream := raw_unget (stream h),
                  stream_position := stream_position h - 1,
                  current_line_number :=
                    (if last (consumed_chars h) = LF then current_line_number h - 1
                     else current_line_number h),
                  consumed_chars := butlast (consumed_chars h)\<rparr>))"

definition hook_tellg :: "hook \<Rightarrow> int" where
  "hook_tellg h = stream_position h"

definition clearConsumedTokens :: "hook \<Rightarrow> hook" where
  "clearConsumedTokens h =
     h\<lparr>position := stream_position h,
       line_number := current_line_number h,
       consumed_chars := []\<rparr>"

definition getConsumedTokens :: "hook \<Rightarrow> string" where
  "getConsumedTokens h = consumed_chars h"

definition getPosition :: "hook \<Rightarrow> int" where
  "getPosition h = position h"

definition getLineNumber :: "hook \<Rightarrow> int" where
  "getLineNumber h = line_number h"

section \<open>The library's number conversions\<close>

text \<open>
  \<open>readNumber\<close> reads an \<open>int64_t\<close> with \<open>iss >> integer\<close> and accepts it when the stream
  reached its end without failing: the text is an optional sign and at least one decimal
  digit, and the number fits 64 bits.  \<open>std::to_string\<close> prints it in decimal and
  \<open>std::stoll\<close> reads the longest number at the start of a text, after white space, and
  throws when there is none or when it does not fit.
\<close>

definition digit_val :: "char \<Rightarrow> nat" where
  "digit_val c = (of_char c :: nat) - 48"

definition digits_val :: "string \<Rightarrow> nat" where
  "digits_val ds = foldl (\<lambda>a c. 10 * a + digit_val c) 0 ds"

definition signed_decimal :: "string \<Rightarrow> int option" where
  "signed_decimal s =
     (let neg = (s \<noteq> [] \<and> hd s = CHR ''-'');
          ds = (if s \<noteq> [] \<and> (hd s = CHR ''-'' \<or> hd s = CHR ''+'') then tl s else s)
      in if ds = [] \<or> \<not> list_all isDigit ds then None
         else Some (if neg then - int (digits_val ds) else int (digits_val ds)))"

definition in_int64 :: "int \<Rightarrow> bool" where
  "in_int64 n = (- (2 ^ 63) \<le> n \<and> n < 2 ^ 63)"

definition istream_int64 :: "string \<Rightarrow> int option" where
  "istream_int64 s =
     (case signed_decimal s of
        None \<Rightarrow> None
      | Some n \<Rightarrow> if in_int64 n then Some n else None)"

definition isSpace :: "char \<Rightarrow> bool" where
  "isSpace c = ((of_char c :: nat) = 32 \<or> (9 \<le> (of_char c :: nat) \<and> (of_char c :: nat) \<le> 13))"

definition stoll :: "string \<Rightarrow> int option" where
  "stoll s =
     (let s1 = dropWhile isSpace s;
          neg = (s1 \<noteq> [] \<and> hd s1 = CHR ''-'');
          s2 = (if s1 \<noteq> [] \<and> (hd s1 = CHR ''-'' \<or> hd s1 = CHR ''+'') then tl s1 else s1);
          ds = takeWhile isDigit s2;
          n = (if neg then - int (digits_val ds) else int (digits_val ds))
      in if ds = [] \<or> \<not> in_int64 n then None else Some n)"

definition digit_char :: "nat \<Rightarrow> char" where
  "digit_char d = char_of (48 + d)"

fun nat_to_string :: "nat \<Rightarrow> string" where
  "nat_to_string n =
     (if n < 10 then [digit_char n] else nat_to_string (n div 10) @ [digit_char (n mod 10)])"

declare nat_to_string.simps [simp del]

definition to_string :: "int \<Rightarrow> string" where
  "to_string n = (if n < 0 then CHR ''-'' # nat_to_string (nat (- n)) else nat_to_string (nat n))"

text \<open>
  Floating point stays outside the model.  \<open>istream_float\<close> stands for \<open>iss >> floating\<close>
  followed by \<open>std::to_string(floating)\<close>: the printed \<open>float\<close> when the stream reached its
  end without failing, nothing otherwise.  \<open>stod_as_int64\<close> stands for
  \<open>static_cast<int64_t>(std::stod(text))\<close>.  A \<open>double\<close> is kept as the conversion that
  made it.
\<close>

record numlib =
  istream_float :: "string \<Rightarrow> string option"
  stod_as_int64 :: "string \<Rightarrow> int"

datatype double = Double_of_int64 int | Stod string

section \<open>The lexer\<close>

definition mk_token :: "token_type \<Rightarrow> string \<Rightarrow> int \<Rightarrow> int \<Rightarrow> token" where
  "mk_token ty v b e = \<lparr>tok_type = ty, tok_value = v, tok_begin = b, tok_end = e\<rparr>"

definition isIdentifierChar :: "char \<Rightarrow> bool" where
  "isIdentifierChar c = (isAlpha c \<or> isDigit c \<or> c = CHR ''_'')"

definition isNumberChar :: "char \<Rightarrow> bool" where
  "isNumberChar c = (isDigit c \<or> isAlpha c \<or> c = CHR ''_'' \<or> c = CHR ''.'' \<or> c = CHR ''-'' \<or> c = CHR ''+'')"

text \<open>
  The loops of the readers ignore the result of \<open>get\<close>: when it fails, the character
  appended is the one \<open>peek\<close> returned.
\<close>

definition got :: "char \<Rightarrow> char option \<Rightarrow> char" where
  "got c r = (case r of None \<Rightarrow> c | Some c' \<Rightarrow> c')"

lemma hook_get_after:
  "hook_get h = (r, h') \<Longrightarrow>
     rs_after (stream h) = (case r of None \<Rightarrow> [] | Some c \<Rightarrow> c # rs_after (stream h'))"
  by (auto simp: hook_get_def raw_get_def split: list.splits)

lemma hook_peek_after:
  "hook_peek h \<noteq> EOF_char \<Longrightarrow> hook_get h = (r, h') \<Longrightarrow> r \<noteq> None"
  by (auto simp: hook_get_def hook_peek_def raw_peek_def raw_get_def split: list.splits)

lemma isIdentifierChar_not_EOF: "isIdentifierChar c \<Longrightarrow> c \<noteq> EOF_char"
  by (auto simp: isIdentifierChar_def isAlpha_def isDigit_def EOF_char_def)

lemma isNumberChar_not_EOF: "isNumberChar c \<Longrightarrow> c \<noteq> EOF_char"
  by (auto simp: isNumberChar_def isAlpha_def isDigit_def EOF_char_def)

lemma hook_get_shorter:
  assumes "isIdentifierChar (hook_peek h) \<or> isNumberChar (hook_peek h)"
    and "hook_get h = (r, h')"
  shows "length (rs_after (stream h')) < length (rs_after (stream h))"
proof -
  from assms(1) have "hook_peek h \<noteq> EOF_char"
    using isIdentifierChar_not_EOF isNumberChar_not_EOF by blast
  then have "r \<noteq> None" using assms(2) by (rule hook_peek_after)
  with hook_get_after [OF assms(2)] show ?thesis by auto
qed

function readIdentifier_loop :: "string \<Rightarrow> int \<Rightarrow> hook \<Rightarrow> string \<times> int \<times> hook" where
  "readIdentifier_loop v e h =
     (if isIdentifierChar (hook_peek h)
      then (case hook_get h of (r, h') \<Rightarrow>
              readIdentifier_loop (v @ [got (hook_peek h) r]) (e + 1) h')
      else (v, e, h))"
  by pat_completeness auto
termination
  by (relation "measure (\<lambda>(v, e, h). length (rs_after (stream h)))")
     (auto intro: hook_get_shorter [OF _ sym])

declare readIdentifier_loop.simps [simp del]

definition readIdentifier :: "hook \<Rightarrow> token \<times> hook" where
  "readIdentifier h =
     (let begin = hook_tellg h in
      case readIdentifier_loop [] begin h of
        (v, e, h') \<Rightarrow> (mk_token Tok_Identifier v begin e, h'))"

function readString_loop :: "string \<Rightarrow> int \<Rightarrow> bool \<Rightarrow> hook \<Rightarrow> string \<times> int \<times> hook" where
  "readString_loop v e escape h =
     (case hook_get h of
        (None, h') \<Rightarrow> (v, e, h')
      | (Some c, h') \<Rightarrow>
          (if escape then
             (if c = CR then readString_loop v (e + 1) True h'
              else if c = LF then readString_loop v (e + 1) False h'
              else readString_loop (v @ [c]) (e + 1) False h')
           else if c = BACKSLASH then readString_loop v (e + 1) True h'
           else if c = QUOTE then (v, e + 1, h')
           else readString_loop (v @ [c]) (e + 1) False h'))"
  by pat_completeness auto
termination
  by (relation "measure (\<lambda>(v, e, esc, h). length (rs_after (stream h)))")
     (auto dest: hook_get_after [OF sym])

declare readString_loop.simps [simp del]

definition readString :: "hook \<Rightarrow> token \<times> hook" where
  "readString h =
     (let begin = hook_tellg h in
      case readString_loop [] begin False h of
        (v, e, h') \<Rightarrow> (mk_token Tok_String v (begin - 1) e, h'))"

function readNumber_loop :: "string \<Rightarrow> int \<Rightarrow> hook \<Rightarrow> string \<times> int \<times> hook" where
  "readNumber_loop v e h =
     (if hook_peek h \<noteq> NUL \<and> isNumberChar (hook_peek h)
      then (case hook_get h of (r, h') \<Rightarrow>
              readNumber_loop (v @ [got (hook_peek h) r]) (e + 1) h')
      else (v, e, h))"
  by pat_completeness auto
termination
  by (relation "measure (\<lambda>(v, e, h). length (rs_after (stream h)))")
     (auto intro: hook_get_shorter [OF _ sym])

declare readNumber_loop.simps [simp del]

definition has_suffix :: "string \<Rightarrow> bool" where
  "has_suffix v = (length v > 0 \<and> (last v = CHR ''f'' \<or> last v = CHR ''F''))"

definition classifyNumber :: "numlib \<Rightarrow> string \<Rightarrow> int \<Rightarrow> int \<Rightarrow> token" where
  "classifyNumber L v b e =
     (let candidate = (if has_suffix v then take (length v - 1) v else v) in
      case istream_int64 candidate of
        Some integer \<Rightarrow>
          if has_suffix v then mk_token Tok_Unknown v b e
          else mk_token Tok_Integer (to_string integer) b e
      | None \<Rightarrow>
          (case istream_float L candidate of
             Some floating \<Rightarrow> mk_token Tok_Float floating b e
           | None \<Rightarrow> mk_token Tok_Unknown v b e))"

definition readNumber :: "numlib \<Rightarrow> hook \<Rightarrow> token \<times> hook" where
  "readNumber L h =
     (let begin = hook_tellg h in
      case readNumber_loop [] begin h of
        (v, e, h') \<Rightarrow> (classifyNumber L v begin e, h'))"

text \<open>
  \<open>readComment\<close> leaves its loop only at a line feed.  At the end of the input \<open>peek\<close>
  returns \<open>EOF_char\<close>, \<open>get\<close> fails and the loop goes on: the function may not return.
\<close>

partial_function (option) readComment_loop :: "string \<Rightarrow> int \<Rightarrow> hook \<Rightarrow> (string \<times> int \<times> hook) option" where
  "readComment_loop v e h =
     (if hook_peek h = LF then Some (v, e, h)
      else (case hook_get h of (r, h') \<Rightarrow>
              readComment_loop (v @ [got (hook_peek h) r]) (e + 1) h'))"

declare readComment_loop.simps [code]

definition readComment :: "hook \<Rightarrow> (token \<times> hook) option" where
  "readComment h =
     (let begin = hook_tellg h in
      case readComment_loop [] begin h of
        None \<Rightarrow> None
      | Some (v, e, h') \<Rightarrow> Some (mk_token Tok_Comment v begin e, h'))"


text \<open>
  \<open>readNextToken\<close> is a loop around a \<open>switch\<close> on the character read.  \<open>switchChar\<close> is
  that \<open>switch\<close> for every character but the white space, which alone continues the loop.
\<close>

definition switchChar :: "numlib \<Rightarrow> char \<Rightarrow> hook \<Rightarrow> ((error + token) \<times> hook) option" where
  "switchChar L c h' =
     (let begin = hook_tellg h' - 1 in
      if isAlpha c \<or> c = CHR ''_'' then
        (case hook_unget h' of
           Inl err \<Rightarrow> Some (Inl err, h')
         | Inr h'' \<Rightarrow> (case readIdentifier h'' of (t, h3) \<Rightarrow> Some (Inr t, h3)))
      else if c = QUOTE then
        (case readString h' of (t, h3) \<Rightarrow> Some (Inr t, h3))
      else if c = CHR ''-'' \<or> c = CHR ''+'' \<or> c = CHR ''.'' \<or> isDigit c then
        (case hook_unget h' of
           Inl err \<Rightarrow> Some (Inl err, h')
         | Inr h'' \<Rightarrow> (case readNumber L h'' of (t, h3) \<Rightarrow> Some (Inr t, h3)))
      else if c = CHR ''('' then Some (Inr (mk_token Tok_LeftParen ''('' begin (begin + 1)), h')
      else if c = CHR '')'' then Some (Inr (mk_token Tok_RightParen '')'' begin (begin + 1)), h')
      else if c = CHR ''['' then Some (Inr (mk_token Tok_LeftBracket ''['' begin (begin + 1)), h')
      else if c = CHR '']'' then Some (Inr (mk_token Tok_RightBracket '']'' begin (begin + 1)), h')
      else if c = CHR ''{'' then Some (Inr (mk_token Tok_LeftCurly ''{'' begin (begin + 1)), h')
      else if c = CHR ''}'' then Some (Inr (mk_token Tok_RightCurly ''}'' begin (begin + 1)), h')
      else if c = CHR '','' then Some (Inr (mk_token Tok_Comma '','' begin (begin + 1)), h')
      else if c = LF then Some (Inr (mk_token Tok_EndOfLine [LF] begin (begin + 1)), h')
      else if c = CHR ''#'' then
        (case hook_unget h' of
           Inl err \<Rightarrow> Some (Inl err, h')
         | Inr h'' \<Rightarrow>
             (case readComment h'' of
                None \<Rightarrow> None
              | Some (t, h3) \<Rightarrow> Some (Inr t, h3)))
      else Some (Inr (mk_token Tok_Unknown [c] begin (begin + 1)), h'))"

definition isIgnored :: "char \<Rightarrow> bool" where
  "isIgnored c = (c = CHR '' '' \<or> c = TAB \<or> c = CR)"

function readNextToken :: "numlib \<Rightarrow> hook \<Rightarrow> ((error + token) \<times> hook) option" where
  "readNextToken L h =
     (case hook_get h of
        (None, h') \<Rightarrow>
          Some (Inr (mk_token Tok_EndOfFile [] (hook_tellg h') (hook_tellg h')), h')
      | (Some c, h') \<Rightarrow>
          if isIgnored c then readNextToken L h' else switchChar L c h')"
  by pat_completeness auto
termination
  by (relation "measure (\<lambda>(L, h). length (rs_after (stream h)))")
     (auto dest: hook_get_after [OF sym])

declare readNextToken.simps [simp del]

section \<open>The parser's state\<close>

text \<open>
  \<open>CLIParser\<close> owns the hook; its lexer and its error reporter hold references to that
  same hook.  The state is the hook, the lexer's one-token lookahead and the two options
  of the reporter.
\<close>

record parser =
  stream_hook :: hook
  peeked_token :: "token option"
  color_output :: bool
  show_source :: bool

definition CLIParser :: "raw_stream \<Rightarrow> parser" where
  "CLIParser r =
     \<lparr>stream_hook = CLIInputStreamHook r, peeked_token = None,
      color_output = True, show_source = True\<rparr>"

definition hasMoreTokens :: "parser \<Rightarrow> bool" where
  "hasMoreTokens s = (hook_peek (stream_hook s) \<noteq> EOF_char)"

definition hasMoreCommands :: "parser \<Rightarrow> bool" where
  "hasMoreCommands s = hasMoreTokens s"

text \<open>
  A call either does not return (\<open>None\<close>), or throws (\<open>Inl\<close>) or returns (\<open>Inr\<close>), in
  both cases with the state it leaves.
\<close>

type_synonym 'a result = "((error + 'a) \<times> parser) option"

definition throw :: "error \<Rightarrow> parser \<Rightarrow> 'a result" where
  "throw e s = Some (Inl e, s)"

definition ret :: "'a \<Rightarrow> parser \<Rightarrow> 'a result" where
  "ret a s = Some (Inr a, s)"

definition then_do :: "'a result \<Rightarrow> ('a \<Rightarrow> parser \<Rightarrow> 'b result) \<Rightarrow> 'b result" where
  "then_do m f =
     (case m of
        None \<Rightarrow> None
      | Some (Inl e, s) \<Rightarrow> Some (Inl e, s)
      | Some (Inr a, s) \<Rightarrow> f a s)"

lemma then_do_cong [fundef_cong]:
  "m = m' \<Longrightarrow> (\<And>a s. m' = Some (Inr a, s) \<Longrightarrow> f a s = f' a s) \<Longrightarrow> then_do m f = then_do m' f'"
  by (auto simp: then_do_def split: option.splits sum.splits)

definition lift_lexer :: "parser \<Rightarrow> ((error + token) \<times> hook) option \<Rightarrow> token result" where
  "lift_lexer s r =
     (case r of
        None \<Rightarrow> None
      | Some (x, h) \<Rightarrow> Some (x, s\<lparr>stream_hook := h\<rparr>))"

definition nextToken :: "numlib \<Rightarrow> parser \<Rightarrow> token result" where
  "nextToken L s =
     (case peeked_token s of
        Some t \<Rightarrow> ret t (s\<lparr>peeked_token := None\<rparr>)
      | None \<Rightarrow> lift_lexer s (readNextToken L (stream_hook s)))"

definition peekToken :: "numlib \<Rightarrow> parser \<Rightarrow> token result" where
  "peekToken L s =
     (case peeked_token s of
        Some t \<Rightarrow> ret t s
      | None \<Rightarrow>
          then_do (lift_lexer s (readNextToken L (stream_hook s)))
            (\<lambda>t s'. ret t (s'\<lparr>peeked_token := Some t\<rparr>)))"


section \<open>Arguments and commands\<close>

datatype argument =
    Arg_Identifier string
  | Arg_String string
  | Arg_Integer int
  | Arg_Float double
  | Arg_IntegerVector "int list"
  | Arg_FloatVector "double list"

record command =
  name :: string
  arguments :: "argument list"

section \<open>Number lists\<close>

text \<open>The two closures of \<open>parseNumberList\<close>, which convert the tokens collected.\<close>

fun integerElements :: "numlib \<Rightarrow> token list \<Rightarrow> error + int list" where
  "integerElements L [] = Inr []"
| "integerElements L (t # ts) =
     (if \<not> (tok_type t = Tok_Integer \<or> tok_type t = Tok_Float) then Inl AssertionFailed
      else case (if tok_type t = Tok_Integer then stoll (tok_value t)
                 else Some (stod_as_int64 L (tok_value t))) of
             None \<Rightarrow> Inl StollFailed
           | Some n \<Rightarrow>
               (case integerElements L ts of
                  Inl e \<Rightarrow> Inl e
                | Inr ns \<Rightarrow> Inr (n # ns)))"

fun floatElements :: "token list \<Rightarrow> error + double list" where
  "floatElements [] = Inr []"
| "floatElements (t # ts) =
     (if \<not> (tok_type t = Tok_Integer \<or> tok_type t = Tok_Float) then Inl AssertionFailed
      else case (if tok_type t = Tok_Integer
                 then map_option Double_of_int64 (stoll (tok_value t))
                 else Some (Stod (tok_value t))) of
             None \<Rightarrow> Inl StollFailed
           | Some d \<Rightarrow>
               (case floatElements ts of
                  Inl e \<Rightarrow> Inl e
                | Inr ds \<Rightarrow> Inr (d # ds)))"

definition parseIntegerVector :: "numlib \<Rightarrow> token list \<Rightarrow> error + argument" where
  "parseIntegerVector L tokens = map_sum id Arg_IntegerVector (integerElements L tokens)"

definition parseFloatVector :: "token list \<Rightarrow> error + argument" where
  "parseFloatVector tokens = map_sum id Arg_FloatVector (floatElements tokens)"

record number_list_vars =
  comma :: bool
  first_number :: bool
  tokens :: "token list"
  integer_vector :: bool

text \<open>\<open>Return the argument\<close>: the vector of the tokens collected, integer or float.\<close>

definition returnVector :: "numlib \<Rightarrow> number_list_vars \<Rightarrow> parser \<Rightarrow> (number_list_vars + argument) result" where
  "returnVector L v s =
     (case (if integer_vector v then parseIntegerVector L (tokens v)
            else parseFloatVector (tokens v)) of
        Inl e \<Rightarrow> throw e s
      | Inr arg \<Rightarrow> ret (Inr arg) s)"

text \<open>
  One turn of the loop of \<open>parseNumberList\<close>: \<open>Inl\<close> is the variables for the next turn,
  \<open>Inr\<close> the argument returned.
\<close>

definition parseNumberList_step :: "numlib \<Rightarrow> number_list_vars \<Rightarrow> parser \<Rightarrow> (number_list_vars + argument) result" where
  "parseNumberList_step L v s =
     then_do (peekToken L s) (\<lambda>pk s1.
       case tok_type pk of
         Tok_Integer \<Rightarrow>
           if \<not> comma v then
             (if length (tokens v) = 1
              then then_do (nextToken L s1) (\<lambda>token. throw (UnexpectedTokenType Tok_Comma token))
              else returnVector L v s1)
           else
             then_do (nextToken L s1) (\<lambda>token.
               ret (Inl (v\<lparr>comma := False, first_number := False,
                           tokens := tokens v @ [token]\<rparr>)))
       | Tok_Float \<Rightarrow>
           if \<not> comma v then
             (if length (tokens v) = 1
              then then_do (nextToken L s1) (\<lambda>token. throw (UnexpectedTokenType Tok_Comma token))
              else returnVector L v s1)
           else
             then_do (nextToken L s1) (\<lambda>token.
               ret (Inl (v\<lparr>comma := False, first_number := False,
                           tokens := tokens v @ [token], integer_vector := False\<rparr>)))
       | Tok_Comma \<Rightarrow>
           if comma v
           then then_do (nextToken L s1) (\<lambda>token. throw (UnexpectedTokenText ''number'' token))
           else then_do (nextToken L s1) (\<lambda>_. ret (Inl (v\<lparr>comma := True\<rparr>)))
       | _ \<Rightarrow>
           if first_number v
           then then_do (nextToken L s1) (\<lambda>token. throw (UnexpectedTokenText ''number'' token))
           else if comma v
           then then_do (nextToken L s1) (\<lambda>token. throw (UnexpectedTokenText ''number'' token))
           else returnVector L v s1)"


section \<open>What the lexer reads\<close>

text \<open>
  The loops of the readers, as functions of the text still to read: each reads a prefix of
  it, and leaves the hook advanced by that many characters.
\<close>

definition unread :: "hook \<Rightarrow> string" where
  "unread h = rs_after (stream h)"

fun hook_advance :: "nat \<Rightarrow> hook \<Rightarrow> hook" where
  "hook_advance 0 h = h"
| "hook_advance (Suc n) h = hook_advance n (snd (hook_get h))"

lemma hook_get_Nil: "unread h = [] \<Longrightarrow> hook_get h = (None, h)"
  by (simp add: hook_get_def raw_get_def unread_def)

lemma hook_get_Cons:
  "unread h = c # cs \<Longrightarrow>
     fst (hook_get h) = Some c \<and> unread (snd (hook_get h)) = cs \<and>
     stream_position (snd (hook_get h)) = stream_position h + 1 \<and>
     consumed_chars (snd (hook_get h)) = consumed_chars h @ [c] \<and>
     position (snd (hook_get h)) = position h \<and>
     line_number (snd (hook_get h)) = line_number h"
  by (simp add: hook_get_def raw_get_def unread_def)

lemma hook_peek_unread: "hook_peek h = (case unread h of [] \<Rightarrow> EOF_char | c # _ \<Rightarrow> c)"
  by (simp add: hook_peek_def raw_peek_def unread_def)

lemma hook_unget_get:
  "unread h = c # cs \<Longrightarrow> hook_unget (snd (hook_get h)) = Inr h"
  by (simp add: hook_get_def raw_get_def unread_def hook_unget_def raw_unget_def)

lemma hook_advance_add: "hook_advance (m + n) h = hook_advance n (hook_advance m h)"
  by (induction m arbitrary: h) simp_all

lemma hook_advance_props:
  "n \<le> length (unread h) \<Longrightarrow>
     unread (hook_advance n h) = drop n (unread h) \<and>
     stream_position (hook_advance n h) = stream_position h + int n \<and>
     consumed_chars (hook_advance n h) = consumed_chars h @ take n (unread h) \<and>
     position (hook_advance n h) = position h \<and>
     line_number (hook_advance n h) = line_number h"
proof (induction n arbitrary: h)
  case 0
  then show ?case by simp
next
  case (Suc n)
  then obtain c cs where u: "unread h = c # cs" by (cases "unread h") auto
  note g = hook_get_Cons [OF u]
  from Suc.prems u have "n \<le> length (unread (snd (hook_get h)))" using g by simp
  from Suc.IH [OF this] g u show ?case by simp
qed

lemma readIdentifier_loop_eq:
  "readIdentifier_loop v e h =
     (let pre = takeWhile isIdentifierChar (unread h)
      in (v @ pre, e + int (length pre), hook_advance (length pre) h))"
proof (induction v e h rule: readIdentifier_loop.induct)
  case (1 v e h)
  show ?case
  proof (cases "unread h")
    case Nil
    then have "\<not> isIdentifierChar (hook_peek h)"
      using isIdentifierChar_not_EOF by (auto simp: hook_peek_unread)
    with Nil show ?thesis by (simp add: readIdentifier_loop.simps [of v e h])
  next
    case (Cons c cs)
    note g = hook_get_Cons [OF Cons]
    have pk: "hook_peek h = c" using Cons by (simp add: hook_peek_unread)
    show ?thesis
    proof (cases "isIdentifierChar c")
      case True
      obtain r h1 where gh: "hook_get h = (r, h1)" by (cases "hook_get h")
      with g have r: "r = Some c" and u1: "unread h1 = cs" by simp_all
      from True pk have "isIdentifierChar (hook_peek h)" by simp
      from "1.IH" [OF this gh [symmetric]] True pk gh r u1 Cons
      show ?thesis
        by (simp add: readIdentifier_loop.simps [of v e h] got_def Let_def)
    next
      case False
      with pk Cons show ?thesis by (simp add: readIdentifier_loop.simps [of v e h])
    qed
  qed
qed

fun literal_value :: "bool \<Rightarrow> string \<Rightarrow> string" where
  "literal_value escape [] = []"
| "literal_value escape (c # cs) =
     (if escape then
        (if c = CR then literal_value True cs
         else if c = LF then literal_value False cs
         else c # literal_value False cs)
      else if c = BACKSLASH then literal_value True cs
      else if c = QUOTE then []
      else c # literal_value False cs)"

fun literal_length :: "bool \<Rightarrow> string \<Rightarrow> nat" where
  "literal_length escape [] = 0"
| "literal_length escape (c # cs) =
     (if escape then
        (if c = CR then Suc (literal_length True cs)
         else Suc (literal_length False cs))
      else if c = BACKSLASH then Suc (literal_length True cs)
      else if c = QUOTE then 1
      else Suc (literal_length False cs))"

lemma literal_length_le: "literal_length escape cs \<le> length cs"
  by (induction cs arbitrary: escape) auto

lemma readString_loop_eq:
  "readString_loop v e escape h =
     (v @ literal_value escape (unread h),
      e + int (literal_length escape (unread h)),
      hook_advance (literal_length escape (unread h)) h)"
proof (induction "unread h" arbitrary: v e escape h)
  case Nil
  then have u: "unread h = []" by simp
  show ?case using hook_get_Nil [OF u] u
    by (simp add: readString_loop.simps [of v e escape h])
next
  case (Cons c cs)
  then have u: "unread h = c # cs" by simp
  obtain r h1 where gh: "hook_get h = (r, h1)" by (cases "hook_get h")
  with hook_get_Cons [OF u] have r: "r = Some c" and u1: "cs = unread h1" by simp_all
  note IH = Cons.hyps(1) [OF u1]
  show ?case
    using u gh r
    by (simp add: readString_loop.simps [of v e escape h] IH u1 [symmetric])
qed

lemma readNumber_loop_eq:
  "readNumber_loop v e h =
     (let pre = takeWhile (\<lambda>c. c \<noteq> NUL \<and> isNumberChar c) (unread h)
      in (v @ pre, e + int (length pre), hook_advance (length pre) h))"
proof (induction "unread h" arbitrary: v e h)
  case Nil
  then have u: "unread h = []" by simp
  then have "\<not> isNumberChar (hook_peek h)"
    using isNumberChar_not_EOF by (auto simp: hook_peek_unread)
  with u show ?case by (simp add: readNumber_loop.simps [of v e h])
next
  case (Cons c cs)
  then have u: "unread h = c # cs" by simp
  obtain r h1 where gh: "hook_get h = (r, h1)" by (cases "hook_get h")
  with hook_get_Cons [OF u] have r: "r = Some c" and u1: "cs = unread h1" by simp_all
  have pk: "hook_peek h = c" using u by (simp add: hook_peek_unread)
  note IH = Cons.hyps(1) [OF u1]
  show ?case
    using u gh r pk
    by (simp add: readNumber_loop.simps [of v e h] IH u1 [symmetric] got_def Let_def)
qed

lemma readComment_loop_LF:
  "LF \<in> set (unread h) \<Longrightarrow>
   readComment_loop v e h =
     (let pre = takeWhile (\<lambda>c. c \<noteq> LF) (unread h)
      in Some (v @ pre, e + int (length pre), hook_advance (length pre) h))"
proof (induction "unread h" arbitrary: v e h)
  case Nil
  then show ?case by simp
next
  case (Cons c cs)
  then have u: "unread h = c # cs" by simp
  obtain r h1 where gh: "hook_get h = (r, h1)" by (cases "hook_get h")
  with hook_get_Cons [OF u] have r: "r = Some c" and u1: "cs = unread h1" by simp_all
  have pk: "hook_peek h = c" using u by (simp add: hook_peek_unread)
  show ?case
  proof (cases "c = LF")
    case True
    with u pk show ?thesis by (simp add: readComment_loop.simps [of v e h])
  next
    case False
    with Cons.prems u u1 have "LF \<in> set (unread h1)" by auto
    note IH = Cons.hyps(1) [OF u1 this]
    show ?thesis
      using u gh r pk False
      by (simp add: readComment_loop.simps [of v e h] IH u1 [symmetric] got_def Let_def)
  qed
qed

lemmas readComment_loop_induct =
  readComment_loop.raw_induct [rotated 1, consumes 1, case_names step]

lemma readComment_loop_no_LF:
  "readComment_loop v e h = Some y \<Longrightarrow> LF \<in> set (unread h)"
proof (induction v e h y rule: readComment_loop_induct)
  case (step f v e h y)
  show ?case
  proof (cases "unread h")
    case Nil
    with step(2) hook_get_Nil [OF Nil] have "f (v @ [EOF_char]) (e + 1) h = Some y"
      by (simp add: hook_peek_unread LF_def EOF_char_def got_def)
    from step(1) [OF this] Nil show ?thesis by simp
  next
    case (Cons c cs)
    note g = hook_get_Cons [OF Cons]
    show ?thesis
    proof (cases "c = LF")
      case True
      with Cons show ?thesis by simp
    next
      case False
      obtain r h1 where gh: "hook_get h = (r, h1)" by (cases "hook_get h")
      with g have u1: "unread h1 = cs" by simp
      from step(2) False Cons gh have "f (v @ [got (hook_peek h) r]) (e + 1) h1 = Some y"
        by (simp add: hook_peek_unread)
      from step(1) [OF this] u1 Cons show ?thesis by simp
    qed
  qed
qed

definition lexed :: "hook \<Rightarrow> token \<Rightarrow> hook \<Rightarrow> bool" where
  "lexed h t h' =
     (\<exists>n\<le>length (unread h).
        h' = hook_advance n h \<and>
        tok_end t = stream_position h + int n \<and>
        stream_position h \<le> tok_begin t \<and> tok_begin t \<le> tok_end t \<and>
        (if tok_type t = Tok_EndOfFile
         then n = length (unread h) \<and> tok_begin t = tok_end t \<and> list_all isIgnored (unread h)
         else 0 < n \<and> (tok_type t = Tok_Identifier \<longrightarrow> tok_value t \<noteq> [])))"

lemma hook_advance_1: "hook_advance (Suc 0) h = snd (hook_get h)"
  by simp

lemma isIdentifierChar_first: "isAlpha c \<or> c = CHR ''_'' \<Longrightarrow> isIdentifierChar c"
  by (auto simp: isIdentifierChar_def)

lemma isNumberChar_first:
  "c = CHR ''-'' \<or> c = CHR ''+'' \<or> c = CHR ''.'' \<or> isDigit c \<Longrightarrow> c \<noteq> NUL \<and> isNumberChar c"
  by (auto simp: isNumberChar_def NUL_def isDigit_def)

lemma classifyNumber_fields:
  "tok_begin (classifyNumber L v b e) = b \<and> tok_end (classifyNumber L v b e) = e \<and>
   tok_type (classifyNumber L v b e) \<in> {Tok_Integer, Tok_Float, Tok_Unknown}"
  by (simp add: classifyNumber_def mk_token_def Let_def split: option.splits)

lemma switchChar_lexed:
  assumes u: "unread h = c # cs"
    and r: "switchChar L c (snd (hook_get h)) = Some (x, h')"
  shows "\<exists>t. x = Inr t \<and> lexed h t h' \<and> tok_type t \<noteq> Tok_EndOfFile"
proof -
  let ?h1 = "snd (hook_get h)"
  note g = hook_get_Cons [OF u]
  note ug = hook_unget_get [OF u]
  have tg: "hook_tellg ?h1 = stream_position h + 1" using g by (simp add: hook_tellg_def)
  have one: "?h1 = hook_advance (Suc 0) h" by simp
  consider (ident) "isAlpha c \<or> c = CHR ''_''"
    | (str) "\<not> (isAlpha c \<or> c = CHR ''_'')" "c = QUOTE"
    | (num) "\<not> (isAlpha c \<or> c = CHR ''_'')" "c \<noteq> QUOTE" "c = CHR ''-'' \<or> c = CHR ''+'' \<or> c = CHR ''.'' \<or> isDigit c"
    | (comment) "\<not> (isAlpha c \<or> c = CHR ''_'')" "c \<noteq> QUOTE" "\<not> (c = CHR ''-'' \<or> c = CHR ''+'' \<or> c = CHR ''.'' \<or> isDigit c)" "c = CHR ''#''"
    | (single) "\<not> (isAlpha c \<or> c = CHR ''_'')" "c \<noteq> QUOTE" "\<not> (c = CHR ''-'' \<or> c = CHR ''+'' \<or> c = CHR ''.'' \<or> isDigit c)" "c \<noteq> CHR ''#''"
    by blast
  then show ?thesis
  proof cases
    case ident
    let ?pre = "takeWhile isIdentifierChar (unread h)"
    have pre: "?pre \<noteq> []" using u isIdentifierChar_first [OF ident] by simp
    have len: "length ?pre \<le> length (unread h)" by (rule length_takeWhile_le)
    from r ident ug have "x = Inr (mk_token Tok_Identifier ?pre (stream_position h) (stream_position h + int (length ?pre)))"
      and "h' = hook_advance (length ?pre) h"
      by (auto simp: switchChar_def readIdentifier_def readIdentifier_loop_eq Let_def hook_tellg_def)
    with pre len show ?thesis
      by (auto simp: lexed_def mk_token_def intro!: exI [of _ "length ?pre"])
  next
    case str
    let ?n = "literal_length False (unread ?h1)"
    have len: "?n \<le> length cs" using literal_length_le [of False "unread ?h1"] g by simp
    from r str tg have x: "x = Inr (mk_token Tok_String (literal_value False (unread ?h1)) (stream_position h) (stream_position h + 1 + int ?n))"
      and h': "h' = hook_advance ?n ?h1"
      by (auto simp: switchChar_def readString_def readString_loop_eq Let_def isAlpha_def QUOTE_def)
    have "h' = hook_advance (Suc ?n) h"
      using h' hook_advance_add [of "Suc 0" ?n h] by simp
    with x len u show ?thesis
      by (auto simp: lexed_def mk_token_def intro!: exI [of _ "Suc ?n"])
  next
    case num
    let ?pre = "takeWhile (\<lambda>c. c \<noteq> NUL \<and> isNumberChar c) (unread h)"
    have pre: "?pre \<noteq> []" using u isNumberChar_first [OF num(3)] by simp
    have len: "length ?pre \<le> length (unread h)" by (rule length_takeWhile_le)
    from r num ug have "x = Inr (classifyNumber L ?pre (stream_position h) (stream_position h + int (length ?pre)))"
      and "h' = hook_advance (length ?pre) h"
      by (auto simp: switchChar_def readNumber_def readNumber_loop_eq Let_def hook_tellg_def)
    with pre len classifyNumber_fields [of L ?pre "stream_position h" "stream_position h + int (length ?pre)"]
    show ?thesis
      by (auto simp: lexed_def intro!: exI [of _ "length ?pre"])
  next
    case comment
    let ?pre = "takeWhile (\<lambda>c. c \<noteq> LF) (unread h)"
    have c: "c \<noteq> LF" using comment by (simp add: LF_def)
    then have pre: "?pre \<noteq> []" using u by simp
    have len: "length ?pre \<le> length (unread h)" by (rule length_takeWhile_le)
    from r comment ug obtain t where rc: "readComment h = Some (t, h')" and x: "x = Inr t"
      by (auto simp: switchChar_def Let_def isAlpha_def isDigit_def QUOTE_def LF_def split: option.splits)
    then obtain y where "readComment_loop [] (hook_tellg h) h = Some y"
      by (auto simp: readComment_def Let_def split: option.splits)
    then have "LF \<in> set (unread h)" by (rule readComment_loop_no_LF)
    from readComment_loop_LF [OF this] rc
    have "t = mk_token Tok_Comment ?pre (stream_position h) (stream_position h + int (length ?pre))"
      and "h' = hook_advance (length ?pre) h"
      by (auto simp: readComment_def Let_def hook_tellg_def)
    with pre len x show ?thesis
      by (auto simp: lexed_def mk_token_def intro!: exI [of _ "length ?pre"])
  next
    case single
    from r single tg have "\<exists>ty v. x = Inr (mk_token ty v (stream_position h) (stream_position h + 1)) \<and> ty \<noteq> Tok_EndOfFile \<and> ty \<noteq> Tok_Identifier"
      and "h' = ?h1"
      by (auto simp: switchChar_def Let_def split: if_splits)
    with u show ?thesis
      by (auto simp: lexed_def mk_token_def intro!: exI [of _ "Suc 0"])
  qed
qed

lemma readNextToken_lexed:
  "readNextToken L h = Some (x, h') \<Longrightarrow> \<exists>t. x = Inr t \<and> lexed h t h'"
proof (induction "unread h" arbitrary: h)
  case Nil
  then have u: "unread h = []" by simp
  with Nil.prems hook_get_Nil [OF u] show ?case
    by (auto simp: readNextToken.simps [of L h] lexed_def mk_token_def hook_tellg_def)
next
  case (Cons c cs)
  then have u: "unread h = c # cs" by simp
  note g = hook_get_Cons [OF u]
  obtain r h1 where gh: "hook_get h = (r, h1)" by (cases "hook_get h")
  with g have r: "r = Some c" and u1: "cs = unread h1" and h1: "h1 = snd (hook_get h)" by simp_all
  show ?case
  proof (cases "isIgnored c")
    case True
    with Cons.prems gh r have "readNextToken L h1 = Some (x, h')"
      by (simp add: readNextToken.simps [of L h])
    from Cons.hyps(1) [OF u1 this] obtain t where x: "x = Inr t" and l: "lexed h1 t h'" by blast
    from l obtain n where n: "n \<le> length (unread h1)" "h' = hook_advance n h1"
      "tok_end t = stream_position h1 + int n" "stream_position h1 \<le> tok_begin t" "tok_begin t \<le> tok_end t"
      "if tok_type t = Tok_EndOfFile
         then n = length (unread h1) \<and> tok_begin t = tok_end t \<and> list_all isIgnored (unread h1)
         else 0 < n \<and> (tok_type t = Tok_Identifier \<longrightarrow> tok_value t \<noteq> [])"
      unfolding lexed_def by blast
    have a: "h' = hook_advance (Suc n) h" using n(2) h1 by simp
    have len: "Suc n \<le> length (unread h)" using n(1) u u1 by simp
    have sp: "stream_position h1 = stream_position h + 1" using g h1 by simp
    have e: "tok_end t = stream_position h + int (Suc n)" using n(3) sp by simp
    have b: "stream_position h \<le> tok_begin t" using n(4) sp by simp
    have "if tok_type t = Tok_EndOfFile
         then Suc n = length (unread h) \<and> tok_begin t = tok_end t \<and> list_all isIgnored (unread h)
         else 0 < Suc n \<and> (tok_type t = Tok_Identifier \<longrightarrow> tok_value t \<noteq> [])"
      using n(6) u u1 True by (simp split: if_splits)
    with a len e b n(5) have "lexed h t h'"
      unfolding lexed_def by blast
    with x show ?thesis by blast
  next
    case False
    with Cons.prems gh r have "switchChar L c h1 = Some (x, h')"
      by (simp add: readNextToken.simps [of L h])
    then have "switchChar L c (snd (hook_get h)) = Some (x, h')"
      unfolding h1 .
    from switchChar_lexed [OF u this] show ?thesis by blast
  qed
qed


section \<open>Tokens through the lookahead\<close>

text \<open>
  What is left to parse: the characters not yet read and the token held in the lookahead
  (the end-of-file token counts for nothing: it never runs out).
\<close>

definition pending :: "parser \<Rightarrow> nat" where
  "pending s =
     2 * length (unread (stream_hook s)) +
     (case peeked_token s of
        None \<Rightarrow> 0
      | Some t \<Rightarrow> if tok_type t = Tok_EndOfFile then 0 else 1)"

lemma lexed_unread:
  "lexed h t h' \<Longrightarrow>
     length (unread h') \<le> length (unread h) \<and>
     (tok_type t \<noteq> Tok_EndOfFile \<longrightarrow> length (unread h') < length (unread h))"
  unfolding lexed_def using hook_advance_props by (auto split: if_splits)

lemma peekToken_cases:
  assumes "peekToken L s = Some (x, s1)"
  obtains (cached) t where "peeked_token s = Some t" "x = Inr t" "s1 = s"
  | (fresh) t h' where "peeked_token s = None" "x = Inr t" "lexed (stream_hook s) t h'"
      "s1 = s\<lparr>stream_hook := h', peeked_token := Some t\<rparr>"
proof (cases "peeked_token s")
  case (Some t)
  with assms have "x = Inr t" "s1 = s" by (simp_all add: peekToken_def ret_def)
  with Some show ?thesis by (rule cached)
next
  case None
  with assms obtain y h' where r: "readNextToken L (stream_hook s) = Some (y, h')"
    by (auto simp: peekToken_def then_do_def lift_lexer_def split: option.splits)
  from readNextToken_lexed [OF r] obtain t where y: "y = Inr t" and l: "lexed (stream_hook s) t h'"
    by blast
  from assms None r y have "x = Inr t" "s1 = s\<lparr>stream_hook := h', peeked_token := Some t\<rparr>"
    by (simp_all add: peekToken_def then_do_def lift_lexer_def ret_def)
  with None l show ?thesis by (intro fresh [of t h']) simp_all
qed

lemma nextToken_cases:
  assumes "nextToken L s = Some (x, s1)"
  obtains (cached) t where "peeked_token s = Some t" "x = Inr t" "s1 = s\<lparr>peeked_token := None\<rparr>"
  | (fresh) t h' where "peeked_token s = None" "x = Inr t" "lexed (stream_hook s) t h'"
      "s1 = s\<lparr>stream_hook := h'\<rparr>"
proof (cases "peeked_token s")
  case (Some t)
  with assms have "x = Inr t" "s1 = s\<lparr>peeked_token := None\<rparr>" by (simp_all add: nextToken_def ret_def)
  with Some show ?thesis by (rule cached)
next
  case None
  with assms obtain y h' where r: "readNextToken L (stream_hook s) = Some (y, h')"
    by (auto simp: nextToken_def lift_lexer_def split: option.splits)
  from readNextToken_lexed [OF r] obtain t where y: "y = Inr t" and l: "lexed (stream_hook s) t h'"
    by blast
  from assms None r y have "x = Inr t" "s1 = s\<lparr>stream_hook := h'\<rparr>"
    by (simp_all add: nextToken_def lift_lexer_def)
  with None l show ?thesis by (intro fresh [of t h']) simp_all
qed

lemma peekToken_slot:
  "peekToken L s = Some (x, s1) \<Longrightarrow> \<exists>t. x = Inr t \<and> peeked_token s1 = Some t"
  by (erule peekToken_cases) auto

lemma peekToken_pending: "peekToken L s = Some (x, s1) \<Longrightarrow> pending s1 \<le> pending s"
proof (erule peekToken_cases)
  fix t h'
  assume "peeked_token s = None" "lexed (stream_hook s) t h'"
    "s1 = s\<lparr>stream_hook := h', peeked_token := Some t\<rparr>"
  with lexed_unread [of "stream_hook s" t h'] show "pending s1 \<le> pending s"
    by (auto simp: pending_def)
qed simp

lemma nextToken_pending: "nextToken L s = Some (x, s1) \<Longrightarrow> pending s1 \<le> pending s"
proof (erule nextToken_cases)
  fix t h'
  assume "peeked_token s = None" "lexed (stream_hook s) t h'" "s1 = s\<lparr>stream_hook := h'\<rparr>"
  with lexed_unread [of "stream_hook s" t h'] show "pending s1 \<le> pending s"
    by (auto simp: pending_def)
qed (auto simp: pending_def)

text \<open>Taking the token that was just peeked: one token less is pending.\<close>

lemma peek_next_pending:
  assumes p: "peekToken L s = Some (Inr pk, s1)"
    and n: "nextToken L s1 = Some (x, s2)"
    and ty: "tok_type pk \<noteq> Tok_EndOfFile"
  shows "x = Inr pk \<and> pending s2 < pending s \<and> peeked_token s2 = None"
proof -
  from peekToken_slot [OF p] have slot: "peeked_token s1 = Some pk" by simp
  from n slot have "x = Inr pk" "s2 = s1\<lparr>peeked_token := None\<rparr>"
    by (simp_all add: nextToken_def ret_def)
  with slot ty peekToken_pending [OF p] show ?thesis by (auto simp: pending_def)
qed

lemma then_do_Some:
  "then_do m f = Some r \<Longrightarrow>
     (\<exists>e s. m = Some (Inl e, s) \<and> r = (Inl e, s)) \<or> (\<exists>a s. m = Some (Inr a, s) \<and> f a s = Some r)"
  by (auto simp: then_do_def split: option.splits sum.splits)

lemma parseNumberList_step_pending:
  assumes "parseNumberList_step L v s = Some (Inr (Inl v'), s')"
  shows "pending s' < pending s"
proof -
  from assms obtain pk s1 where p: "peekToken L s = Some (Inr pk, s1)"
    and "tok_type pk \<noteq> Tok_EndOfFile \<and> (\<exists>x. nextToken L s1 = Some (x, s'))"
    unfolding parseNumberList_step_def
    by (auto dest!: then_do_Some simp: throw_def ret_def returnVector_def
             split: token_type.splits if_splits sum.splits)
  with peek_next_pending [OF p] show ?thesis by blast
qed

function parseNumberList_loop :: "numlib \<Rightarrow> number_list_vars \<Rightarrow> parser \<Rightarrow> argument result" where
  "parseNumberList_loop L v s =
     then_do (parseNumberList_step L v s) (\<lambda>r s'.
       case r of
         Inl v' \<Rightarrow> parseNumberList_loop L v' s'
       | Inr arg \<Rightarrow> ret arg s')"
  by pat_completeness auto
termination
  by (relation "measure (\<lambda>(L, v, s). pending s)") (auto intro: parseNumberList_step_pending)

declare parseNumberList_loop.simps [simp del]

definition parseNumberList :: "numlib \<Rightarrow> parser \<Rightarrow> argument result" where
  "parseNumberList L s =
     parseNumberList_loop L
       \<lparr>comma = True, first_number = True, tokens = [], integer_vector = True\<rparr> s"

section \<open>Arguments\<close>

definition expectToken :: "token_type \<Rightarrow> 'a \<Rightarrow> token \<Rightarrow> parser \<Rightarrow> 'a result" where
  "expectToken ty a token s =
     (if tok_type token \<noteq> ty then throw (UnexpectedTokenType ty token) s else ret a s)"

definition parseVector :: "numlib \<Rightarrow> parser \<Rightarrow> argument result" where
  "parseVector L s =
     then_do (peekToken L s) (\<lambda>pk s1.
       case tok_type pk of
         Tok_Integer \<Rightarrow> parseNumberList L s1
       | Tok_Float \<Rightarrow> parseNumberList L s1
       | Tok_LeftParen \<Rightarrow>
           then_do (nextToken L s1) (\<lambda>_ s2.
             then_do (parseNumberList L s2) (\<lambda>arg s3.
               then_do (nextToken L s3) (expectToken Tok_RightParen arg)))
       | Tok_LeftBracket \<Rightarrow>
           then_do (nextToken L s1) (\<lambda>_ s2.
             then_do (parseNumberList L s2) (\<lambda>arg s3.
               then_do (nextToken L s3) (expectToken Tok_RightBracket arg)))
       | _ \<Rightarrow> throw NoWayToReachHere s1)"

text \<open>
  The leading number of a bare list was read before \<open>parseNumberList\<close>; it is put in front
  of the vector that came back (\<open>std::get\<close> throws when the argument is not a vector).
\<close>

definition insertInteger :: "token \<Rightarrow> argument \<Rightarrow> parser \<Rightarrow> argument result" where
  "insertInteger token arg s =
     (case arg of
        Arg_IntegerVector ns \<Rightarrow>
          (case stoll (tok_value token) of
             None \<Rightarrow> throw StollFailed s
           | Some n \<Rightarrow> ret (Arg_IntegerVector (n # ns)) s)
      | Arg_FloatVector ds \<Rightarrow>
          (case stoll (tok_value token) of
             None \<Rightarrow> throw StollFailed s
           | Some n \<Rightarrow> ret (Arg_FloatVector (Double_of_int64 n # ds)) s)
      | _ \<Rightarrow> throw BadVariantAccess s)"

definition insertFloat :: "token \<Rightarrow> argument \<Rightarrow> parser \<Rightarrow> argument result" where
  "insertFloat token arg s =
     (case arg of
        Arg_FloatVector ds \<Rightarrow> ret (Arg_FloatVector (Stod (tok_value token) # ds)) s
      | Arg_IntegerVector ns \<Rightarrow>
          ret (Arg_FloatVector (Stod (tok_value token) # map Double_of_int64 ns)) s
      | _ \<Rightarrow> throw BadVariantAccess s)"

definition integerArgument :: "token \<Rightarrow> parser \<Rightarrow> argument result" where
  "integerArgument token s =
     (case stoll (tok_value token) of
        None \<Rightarrow> throw StollFailed s
      | Some n \<Rightarrow> ret (Arg_Integer n) s)"

definition floatArgument :: "token \<Rightarrow> parser \<Rightarrow> argument result" where
  "floatArgument token s = ret (Arg_Float (Stod (tok_value token))) s"

text \<open>
  After a number: when a comma follows, the number starts a list (\<open>ins\<close> puts it in
  front of the rest); otherwise it is an argument by itself (\<open>scalar\<close>).
\<close>

definition numberOrVector ::
    "numlib \<Rightarrow> (argument \<Rightarrow> parser \<Rightarrow> argument result) \<Rightarrow> (parser \<Rightarrow> argument result) \<Rightarrow>
     parser \<Rightarrow> argument result" where
  "numberOrVector L ins scalar s =
     then_do (peekToken L s) (\<lambda>pk s1.
       if tok_type pk = Tok_Comma then
         then_do (nextToken L s1) (\<lambda>_ s2. then_do (parseNumberList L s2) ins)
       else scalar s1)"

definition parseArgument :: "numlib \<Rightarrow> parser \<Rightarrow> argument result" where
  "parseArgument L s =
     then_do (peekToken L s) (\<lambda>pk s1.
       case tok_type pk of
         Tok_Identifier \<Rightarrow>
           then_do (nextToken L s1) (\<lambda>token. ret (Arg_Identifier (tok_value token)))
       | Tok_String \<Rightarrow>
           then_do (nextToken L s1) (\<lambda>token. ret (Arg_String (tok_value token)))
       | Tok_Integer \<Rightarrow>
           then_do (nextToken L s1) (\<lambda>token.
             numberOrVector L (insertInteger token) (integerArgument token))
       | Tok_Float \<Rightarrow>
           then_do (nextToken L s1) (\<lambda>token.
             numberOrVector L (insertFloat token) (floatArgument token))
       | Tok_LeftParen \<Rightarrow> parseVector L s1
       | Tok_LeftBracket \<Rightarrow> parseVector L s1
       | Tok_RightParen \<Rightarrow>
           then_do (nextToken L s1) (\<lambda>token. throw (UnexpectedToken token))
       | Tok_RightBracket \<Rightarrow>
           then_do (nextToken L s1) (\<lambda>token. throw (UnexpectedToken token))
       | _ \<Rightarrow> throw NoWayToReachHere s1)"

section \<open>Argument lists\<close>

text \<open>
  One turn of the loop of \<open>parseArgumentList\<close>, on its variables \<open>multiline\<close> and
  \<open>arguments\<close>: \<open>Inl\<close> is the variables for the next turn, \<open>Inr\<close> the list returned.
\<close>

definition pushArgument ::
    "numlib \<Rightarrow> bool \<Rightarrow> argument list \<Rightarrow> parser \<Rightarrow> (bool \<times> argument list + argument list) result" where
  "pushArgument L multiline args s =
     then_do (parseArgument L s) (\<lambda>arg. ret (Inl (multiline, args @ [arg])))"

definition parseArgumentList_step ::
    "numlib \<Rightarrow> bool \<times> argument list \<Rightarrow> parser \<Rightarrow> (bool \<times> argument list + argument list) result" where
  "parseArgumentList_step L v s =
     (let multiline = fst v; args = snd v
      in then_do (peekToken L s) (\<lambda>pk s1.
       case tok_type pk of
         Tok_Identifier \<Rightarrow> pushArgument L multiline args s1
       | Tok_String \<Rightarrow> pushArgument L multiline args s1
       | Tok_Integer \<Rightarrow> pushArgument L multiline args s1
       | Tok_Float \<Rightarrow> pushArgument L multiline args s1
       | Tok_LeftParen \<Rightarrow> pushArgument L multiline args s1
       | Tok_RightParen \<Rightarrow> pushArgument L multiline args s1
       | Tok_LeftBracket \<Rightarrow> pushArgument L multiline args s1
       | Tok_RightBracket \<Rightarrow> pushArgument L multiline args s1
       | Tok_LeftCurly \<Rightarrow>
           if multiline
           then then_do (nextToken L s1) (\<lambda>token. throw (MismatchedToken token))
           else then_do (nextToken L s1) (\<lambda>_. ret (Inl (True, args)))
       | Tok_RightCurly \<Rightarrow>
           if \<not> multiline
           then then_do (nextToken L s1) (\<lambda>token. throw (MismatchedToken token))
           else then_do (nextToken L s1) (\<lambda>_. ret (Inl (False, args)))
       | Tok_Comma \<Rightarrow> then_do (nextToken L s1) (\<lambda>token. throw (UnexpectedToken token))
       | Tok_EndOfLine \<Rightarrow>
           then_do (nextToken L s1) (\<lambda>_.
             if \<not> multiline then ret (Inr args) else ret (Inl (multiline, args)))
       | Tok_Comment \<Rightarrow> then_do (nextToken L s1) (\<lambda>_. ret (Inl (multiline, args)))
       | Tok_EndOfFile \<Rightarrow>
           if multiline
           then then_do (nextToken L s1) (\<lambda>token. throw (UnexpectedTokenType Tok_RightCurly token))
           else ret (Inr args) s1
       | Tok_Unknown \<Rightarrow> then_do (nextToken L s1) (\<lambda>token. throw (UnknownToken token))))"

section \<open>What a call does to the state\<close>

definition error_token :: "error \<Rightarrow> token option" where
  "error_token e =
     (case e of
        UnexpectedTokenType _ t \<Rightarrow> Some t
      | UnexpectedTokenText _ t \<Rightarrow> Some t
      | UnexpectedToken t \<Rightarrow> Some t
      | MismatchedToken t \<Rightarrow> Some t
      | UnknownToken t \<Rightarrow> Some t
      | _ \<Rightarrow> None)"

inductive steps :: "numlib \<Rightarrow> parser \<Rightarrow> parser \<Rightarrow> bool" for L where
  steps_refl: "steps L s s"
| steps_peek: "steps L s s1 \<Longrightarrow> peekToken L s1 = Some (x, s2) \<Longrightarrow> steps L s s2"
| steps_next: "steps L s s1 \<Longrightarrow> nextToken L s1 = Some (x, s2) \<Longrightarrow> steps L s s2"

lemma steps_trans: "steps L s1 s2 \<Longrightarrow> steps L s s1 \<Longrightarrow> steps L s s2"
  by (induction rule: steps.induct) (auto intro: steps.intros)

definition raised :: "numlib \<Rightarrow> parser \<Rightarrow> error \<Rightarrow> parser \<Rightarrow> bool" where
  "raised L s e s' =
     (steps L s s' \<and>
      (\<forall>t. error_token e = Some t \<longrightarrow> (\<exists>s0. steps L s s0 \<and> nextToken L s0 = Some (Inr t, s'))))"

definition outcome :: "numlib \<Rightarrow> parser \<Rightarrow> error + 'a \<Rightarrow> parser \<Rightarrow> bool" where
  "outcome L s x s' = (case x of Inl e \<Rightarrow> raised L s e s' | Inr _ \<Rightarrow> steps L s s')"

lemma outcome_steps: "outcome L s x s' \<Longrightarrow> steps L s s'"
  by (auto simp: outcome_def raised_def split: sum.splits)

lemma outcome_trans: "steps L s s1 \<Longrightarrow> outcome L s1 x s' \<Longrightarrow> outcome L s x s'"
  by (auto simp: outcome_def raised_def split: sum.splits intro: steps_trans)

lemma nextToken_Inr: "nextToken L s = Some (x, s') \<Longrightarrow> \<exists>t. x = Inr t"
  by (erule nextToken_cases) auto

lemma outcome_peek: "peekToken L s = Some (x, s') \<Longrightarrow> outcome L s x s'"
  using peekToken_slot [of L s x s'] steps_peek [OF steps_refl, of L s x s']
  by (auto simp: outcome_def)

lemma outcome_next: "nextToken L s = Some (x, s') \<Longrightarrow> outcome L s x s'"
  using nextToken_Inr [of L s x s'] steps_next [OF steps_refl, of L s x s']
  by (auto simp: outcome_def)

lemma outcome_ret: "ret a s = Some (x, s') \<Longrightarrow> outcome L s x s'"
  by (auto simp: ret_def outcome_def intro: steps.intros)

lemma outcome_throw: "throw e s = Some (x, s') \<Longrightarrow> error_token e = None \<Longrightarrow> outcome L s x s'"
  by (auto simp: throw_def outcome_def raised_def intro: steps.intros)

lemma outcome_then_do:
  assumes "then_do m f = Some (x, s'')"
    and "\<And>y s1. m = Some (y, s1) \<Longrightarrow> outcome L s y s1"
    and "\<And>a s1. m = Some (Inr a, s1) \<Longrightarrow> f a s1 = Some (x, s'') \<Longrightarrow> outcome L s1 x s''"
  shows "outcome L s x s''"
proof -
  from then_do_Some [OF assms(1)] show ?thesis
  proof (elim disjE exE conjE)
    fix e s1 assume m: "m = Some (Inl e, s1)" and "(x, s'') = (Inl e, s1)"
    with assms(2) [OF m] show ?thesis by (simp add: outcome_def)
  next
    fix a s1 assume m: "m = Some (Inr a, s1)" and f: "f a s1 = Some (x, s'')"
    from assms(2) [OF m] have "steps L s s1" by (rule outcome_steps)
    from this assms(3) [OF m f] show ?thesis by (rule outcome_trans)
  qed
qed

lemma outcome_next_throw:
  assumes "then_do (nextToken L s) (\<lambda>token. throw (E token)) = Some (x, s')"
    and "\<And>t. error_token (E t) = Some t"
  shows "outcome L s x s'"
proof -
  from assms(1) obtain t where n: "nextToken L s = Some (Inr t, s')" and x: "x = Inl (E t)"
    by (auto dest!: then_do_Some simp: throw_def elim: nextToken_cases)
  from outcome_next [OF n] have "steps L s s'" by (rule outcome_steps)
  with n x assms(2) show ?thesis
    by (auto simp: outcome_def raised_def intro: steps.intros)
qed

lemma outcome_next_ret:
  assumes "then_do (nextToken L s) (\<lambda>token. ret (f token)) = Some (x, s')"
  shows "outcome L s x s'"
  using assms by (rule outcome_then_do) (auto intro: outcome_next outcome_ret)

lemma integerElements_error: "integerElements L ts = Inl e \<Longrightarrow> error_token e = None"
  by (induction ts arbitrary: e)
     (auto simp: error_token_def split: if_splits option.splits sum.splits)

lemma floatElements_error: "floatElements ts = Inl e \<Longrightarrow> error_token e = None"
  by (induction ts arbitrary: e)
     (auto simp: error_token_def split: if_splits option.splits sum.splits)

lemma outcome_returnVector: "returnVector L v s = Some (x, s') \<Longrightarrow> outcome L s x s'"
  by (cases "integerElements L (tokens v)"; cases "floatElements (tokens v)")
     (auto simp: returnVector_def parseIntegerVector_def parseFloatVector_def
           split: if_splits
           intro: outcome_ret outcome_throw integerElements_error floatElements_error)

lemma parseNumberList_step_outcome:
  "parseNumberList_step L v s = Some (x, s') \<Longrightarrow> outcome L s x s'"
  unfolding parseNumberList_step_def
  apply (erule outcome_then_do)
   apply (erule outcome_peek)
  apply (simp split: token_type.splits if_splits)
                      apply (auto intro: outcome_next_throw outcome_next_ret outcome_returnVector
                                  simp: error_token_def)
  done

lemma parseNumberList_loop_outcome:
  "parseNumberList_loop L v s = Some (x, s') \<Longrightarrow> outcome L s x s'"
proof (induction L v s rule: parseNumberList_loop.induct)
  case (1 L v s)
  from "1.prems" have "then_do (parseNumberList_step L v s) (\<lambda>r s'.
       case r of
         Inl v' \<Rightarrow> parseNumberList_loop L v' s'
       | Inr arg \<Rightarrow> ret arg s') = Some (x, s')"
    by (simp add: parseNumberList_loop.simps [of L v s])
  then show ?case
  proof (rule outcome_then_do)
    fix y s1 assume "parseNumberList_step L v s = Some (y, s1)"
    then show "outcome L s y s1" by (rule parseNumberList_step_outcome)
  next
    fix a s1
    assume st: "parseNumberList_step L v s = Some (Inr a, s1)"
      and k: "(case a of Inl v' \<Rightarrow> parseNumberList_loop L v' s1 | Inr arg \<Rightarrow> ret arg s1) = Some (x, s')"
    show "outcome L s1 x s'"
    proof (cases a)
      case (Inl v')
      with k "1.IH" [OF st] show ?thesis by simp
    next
      case (Inr arg)
      with k show ?thesis by (auto intro: outcome_ret)
    qed
  qed
qed

lemma parseNumberList_outcome: "parseNumberList L s = Some (x, s') \<Longrightarrow> outcome L s x s'"
  unfolding parseNumberList_def by (rule parseNumberList_loop_outcome)

lemma outcome_expectToken:
  assumes "then_do (nextToken L s) (expectToken ty a) = Some (x, s')"
  shows "outcome L s x s'"
proof -
  from assms obtain t where n: "nextToken L s = Some (Inr t, s')"
    and x: "x = (if tok_type t \<noteq> ty then Inl (UnexpectedTokenType ty t) else Inr a)"
    by (auto dest!: then_do_Some simp: expectToken_def throw_def ret_def
             elim: nextToken_cases split: if_splits)
  from outcome_next [OF n] have "steps L s s'" by (rule outcome_steps)
  with n x show ?thesis
    by (auto simp: outcome_def raised_def error_token_def intro: steps.intros)
qed

lemma parseVector_outcome: "parseVector L s = Some (x, s') \<Longrightarrow> outcome L s x s'"
  unfolding parseVector_def
  apply (erule outcome_then_do)
   apply (erule outcome_peek)
  apply (simp split: token_type.splits)
                 apply (auto intro: parseNumberList_outcome outcome_throw simp: error_token_def)
   apply (erule outcome_then_do, erule outcome_next)
   apply (erule outcome_then_do, erule parseNumberList_outcome)
   apply (erule outcome_expectToken)
  apply (erule outcome_then_do, erule outcome_next)
  apply (erule outcome_then_do, erule parseNumberList_outcome)
  apply (erule outcome_expectToken)
  done

lemma steps_pending: "steps L s s' \<Longrightarrow> pending s' \<le> pending s"
  by (induction rule: steps.induct)
     (auto dest: peekToken_pending nextToken_pending)

lemma insertInteger_outcome: "insertInteger token a s = Some (x, s') \<Longrightarrow> outcome L s x s'"
  by (auto simp: insertInteger_def error_token_def split: argument.splits option.splits
           intro: outcome_ret outcome_throw)

lemma insertFloat_outcome: "insertFloat token a s = Some (x, s') \<Longrightarrow> outcome L s x s'"
  by (auto simp: insertFloat_def error_token_def split: argument.splits option.splits
           intro: outcome_ret outcome_throw)

lemma integerArgument_outcome: "integerArgument token s = Some (x, s') \<Longrightarrow> outcome L s x s'"
  by (auto simp: integerArgument_def error_token_def split: option.splits
           intro: outcome_ret outcome_throw)

lemma floatArgument_outcome: "floatArgument token s = Some (x, s') \<Longrightarrow> outcome L s x s'"
  by (auto simp: floatArgument_def intro: outcome_ret)

lemma numberOrVector_outcome:
  assumes "numberOrVector L ins scalar s = Some (x, s')"
    and "\<And>a s y sa. ins a s = Some (y, sa) \<Longrightarrow> outcome L s y sa"
    and "\<And>s y sa. scalar s = Some (y, sa) \<Longrightarrow> outcome L s y sa"
  shows "outcome L s x s'"
  using assms(1) unfolding numberOrVector_def
  apply (rule outcome_then_do)
   apply (erule outcome_peek)
  apply (simp split: if_splits)
   apply (erule outcome_then_do, erule outcome_next)
   apply (erule outcome_then_do, erule parseNumberList_outcome)
   apply (erule assms(2))
  apply (erule assms(3))
  done

text \<open>A token was taken from \<open>s\<close> on the way to \<open>s'\<close>.\<close>

definition took :: "numlib \<Rightarrow> parser \<Rightarrow> parser \<Rightarrow> bool" where
  "took L s s' =
     (\<exists>pk s1 s2. peekToken L s = Some (Inr pk, s1) \<and> tok_type pk \<noteq> Tok_EndOfFile \<and>
        nextToken L s1 = Some (Inr pk, s2) \<and> steps L s2 s')"

lemma took_pending: "took L s s' \<Longrightarrow> pending s' < pending s"
  unfolding took_def using peek_next_pending steps_pending by (metis le_less_trans)

lemma took_steps: "took L s s' \<Longrightarrow> steps L s s'"
  unfolding took_def by (meson steps.intros steps_trans)

lemma peekToken_again:
  "peekToken L s = Some (Inr pk, s1) \<Longrightarrow> peekToken L s1 = Some (Inr pk, s1)"
  using peekToken_slot [of L s "Inr pk" s1] by (auto simp: peekToken_def ret_def)

lemma next_after_peek:
  assumes "peekToken L s = Some (Inr pk, s1)" and "then_do (nextToken L s1) k = Some (x, s')"
  obtains s2 where "nextToken L s1 = Some (Inr pk, s2)" "k pk s2 = Some (x, s')"
proof -
  from peekToken_slot [OF assms(1)] have "nextToken L s1 = Some (Inr pk, s1\<lparr>peeked_token := None\<rparr>)"
    by (auto simp: nextToken_def ret_def)
  with assms(2) that show ?thesis by (auto simp: then_do_def)
qed

lemma took_via_next:
  assumes p: "peekToken L s = Some (Inr pk, s1)"
    and t: "then_do (nextToken L s1) k = Some (x, s')"
    and ne: "tok_type pk \<noteq> Tok_EndOfFile"
    and k: "\<And>s2. k pk s2 = Some (x, s') \<Longrightarrow> steps L s2 s'"
  shows "took L s s'"
proof -
  from next_after_peek [OF p t] obtain s2 where n: "nextToken L s1 = Some (Inr pk, s2)"
    and "k pk s2 = Some (x, s')" by blast
  from k [OF this(2)] have "steps L s2 s'" .
  with p n ne show ?thesis unfolding took_def by auto
qed

lemma parseVector_took:
  assumes p: "peekToken L s = Some (Inr pk, s1)"
    and ty: "tok_type pk = Tok_LeftParen \<or> tok_type pk = Tok_LeftBracket"
    and r: "parseVector L s1 = Some (x, s')"
  shows "took L s s'"
proof -
  from r peekToken_again [OF p] ty
  obtain close where "then_do (nextToken L s1) (\<lambda>_ s2.
             then_do (parseNumberList L s2) (\<lambda>arg s3.
               then_do (nextToken L s3) (expectToken close arg))) = Some (x, s')"
    by (auto simp: parseVector_def then_do_def)
  with p show ?thesis
  proof (rule took_via_next)
    show "tok_type pk \<noteq> Tok_EndOfFile" using ty by auto
  next
    fix s2
    assume "then_do (parseNumberList L s2) (\<lambda>arg s3.
               then_do (nextToken L s3) (expectToken close arg)) = Some (x, s')"
    then have "outcome L s2 x s'"
      by (rule outcome_then_do) (auto intro: parseNumberList_outcome outcome_expectToken)
    then show "steps L s2 s'" by (rule outcome_steps)
  qed
qed

lemma parseArgument_took:
  assumes p: "peekToken L s = Some (Inr pk, s1)"
    and ty: "tok_type pk \<in> {Tok_Identifier, Tok_String, Tok_Integer, Tok_Float, Tok_LeftParen,
               Tok_RightParen, Tok_LeftBracket, Tok_RightBracket}"
    and r: "parseArgument L s1 = Some (x, s')"
  shows "took L s s'"
proof -
  have ne: "tok_type pk \<noteq> Tok_EndOfFile" using ty by auto
  note again = peekToken_again [OF p]
  from r again have body: "(case tok_type pk of
         Tok_Identifier \<Rightarrow>
           then_do (nextToken L s1) (\<lambda>token. ret (Arg_Identifier (tok_value token)))
       | Tok_String \<Rightarrow>
           then_do (nextToken L s1) (\<lambda>token. ret (Arg_String (tok_value token)))
       | Tok_Integer \<Rightarrow>
           then_do (nextToken L s1) (\<lambda>token.
             numberOrVector L (insertInteger token) (integerArgument token))
       | Tok_Float \<Rightarrow>
           then_do (nextToken L s1) (\<lambda>token.
             numberOrVector L (insertFloat token) (floatArgument token))
       | Tok_LeftParen \<Rightarrow> parseVector L s1
       | Tok_LeftBracket \<Rightarrow> parseVector L s1
       | Tok_RightParen \<Rightarrow>
           then_do (nextToken L s1) (\<lambda>token. throw (UnexpectedToken token))
       | Tok_RightBracket \<Rightarrow>
           then_do (nextToken L s1) (\<lambda>token. throw (UnexpectedToken token))
       | _ \<Rightarrow> throw NoWayToReachHere s1) = Some (x, s')"
    by (simp add: parseArgument_def then_do_def)
  from ty consider (ident) "tok_type pk = Tok_Identifier" | (str) "tok_type pk = Tok_String"
    | (int) "tok_type pk = Tok_Integer" | (flt) "tok_type pk = Tok_Float"
    | (vec) "tok_type pk = Tok_LeftParen \<or> tok_type pk = Tok_LeftBracket"
    | (close) "tok_type pk = Tok_RightParen \<or> tok_type pk = Tok_RightBracket"
    by auto
  then show ?thesis
  proof cases
    case ident
    with body have "then_do (nextToken L s1) (\<lambda>token. ret (Arg_Identifier (tok_value token))) = Some (x, s')"
      by simp
    with p show ?thesis
      by (rule took_via_next) (use ne in \<open>auto simp: ret_def intro: steps.intros\<close>)
  next
    case str
    with body have "then_do (nextToken L s1) (\<lambda>token. ret (Arg_String (tok_value token))) = Some (x, s')"
      by simp
    with p show ?thesis
      by (rule took_via_next) (use ne in \<open>auto simp: ret_def intro: steps.intros\<close>)
  next
    case int
    with body have "then_do (nextToken L s1) (\<lambda>token.
             numberOrVector L (insertInteger token) (integerArgument token)) = Some (x, s')"
      by simp
    with p show ?thesis
      by (rule took_via_next)
         (use ne in \<open>auto intro!: outcome_steps elim!: numberOrVector_outcome
                     intro: insertInteger_outcome integerArgument_outcome\<close>)
  next
    case flt
    with body have "then_do (nextToken L s1) (\<lambda>token.
             numberOrVector L (insertFloat token) (floatArgument token)) = Some (x, s')"
      by simp
    with p show ?thesis
      by (rule took_via_next)
         (use ne in \<open>auto intro!: outcome_steps elim!: numberOrVector_outcome
                     intro: insertFloat_outcome floatArgument_outcome\<close>)
  next
    case vec
    with body have "parseVector L s1 = Some (x, s')" by auto
    from parseVector_took [OF p vec this] show ?thesis .
  next
    case close
    with body have "then_do (nextToken L s1) (\<lambda>token. throw (UnexpectedToken token)) = Some (x, s')"
      by auto
    with p show ?thesis
      by (rule took_via_next) (use ne in \<open>auto simp: throw_def intro: steps.intros\<close>)
  qed
qed


lemma parseArgument_outcome: "parseArgument L s = Some (x, s') \<Longrightarrow> outcome L s x s'"
  unfolding parseArgument_def
  apply (erule outcome_then_do)
   apply (erule outcome_peek)
  apply (simp split: token_type.splits)
                 apply (auto intro: parseVector_outcome outcome_throw outcome_next_throw outcome_next_ret
                             simp: error_token_def)
   apply (erule outcome_then_do, erule outcome_next)
   apply (erule numberOrVector_outcome, erule insertInteger_outcome, erule integerArgument_outcome)
  apply (erule outcome_then_do, erule outcome_next)
  apply (erule numberOrVector_outcome, erule insertFloat_outcome, erule floatArgument_outcome)
  done

lemma parseArgumentList_step_pending:
  assumes "parseArgumentList_step L v s = Some (Inr (Inl v'), s')"
  shows "pending s' < pending s"
proof -
  from assms obtain pk s1 where p: "peekToken L s = Some (Inr pk, s1)"
    and "(tok_type pk \<in> {Tok_Identifier, Tok_String, Tok_Integer, Tok_Float, Tok_LeftParen,
               Tok_RightParen, Tok_LeftBracket, Tok_RightBracket} \<and>
          (\<exists>x. parseArgument L s1 = Some (x, s'))) \<or>
         (tok_type pk \<noteq> Tok_EndOfFile \<and> (\<exists>x. nextToken L s1 = Some (x, s')))"
    unfolding parseArgumentList_step_def pushArgument_def Let_def
    by (auto dest!: then_do_Some simp: throw_def ret_def
             split: token_type.splits if_splits)
  with peek_next_pending [OF p] parseArgument_took [OF p] took_pending show ?thesis by blast
qed

function parseArgumentList_loop ::
    "numlib \<Rightarrow> bool \<times> argument list \<Rightarrow> parser \<Rightarrow> argument list result" where
  "parseArgumentList_loop L v s =
     then_do (parseArgumentList_step L v s) (\<lambda>r s'.
       case r of
         Inl v' \<Rightarrow> parseArgumentList_loop L v' s'
       | Inr args \<Rightarrow> ret args s')"
  by pat_completeness auto
termination
  by (relation "measure (\<lambda>(L, v, s). pending s)") (auto intro: parseArgumentList_step_pending)

declare parseArgumentList_loop.simps [simp del]

definition parseArgumentList :: "numlib \<Rightarrow> parser \<Rightarrow> argument list result" where
  "parseArgumentList L s = parseArgumentList_loop L (False, []) s"

section \<open>Commands\<close>

definition clear :: "parser \<Rightarrow> parser" where
  "clear s = s\<lparr>stream_hook := clearConsumedTokens (stream_hook s)\<rparr>"

text \<open>
  \<open>command.arguments = parseArgumentList(); stream_hook_.clearConsumedTokens(); return command;\<close>
\<close>

definition returnCommand :: "numlib \<Rightarrow> command \<Rightarrow> parser \<Rightarrow> (command + command) result" where
  "returnCommand L command s =
     then_do (parseArgumentList L s) (\<lambda>args s'.
       ret (Inr (command\<lparr>arguments := args\<rparr>)) (clear s'))"

text \<open>The tokens that start an argument but are not an identifier, and the comma.\<close>

definition notIdentifier :: "numlib \<Rightarrow> command \<Rightarrow> parser \<Rightarrow> (command + command) result" where
  "notIdentifier L command s =
     (if name command = []
      then then_do (nextToken L s) (\<lambda>token. throw (UnexpectedTokenType Tok_Identifier token))
      else returnCommand L command s)"

text \<open>
  One turn of the loop of \<open>parseCommand\<close>: \<open>Inl\<close> is the command so far, for the next turn,
  \<open>Inr\<close> the command returned.
\<close>

definition parseCommand_step :: "numlib \<Rightarrow> command \<Rightarrow> parser \<Rightarrow> (command + command) result" where
  "parseCommand_step L command s =
     then_do (peekToken L s) (\<lambda>pk s1.
       case tok_type pk of
         Tok_Identifier \<Rightarrow>
           if name command = []
           then then_do (nextToken L s1) (\<lambda>token. ret (Inl (command\<lparr>name := tok_value token\<rparr>)))
           else returnCommand L command s1
       | Tok_String \<Rightarrow> notIdentifier L command s1
       | Tok_Integer \<Rightarrow> notIdentifier L command s1
       | Tok_Float \<Rightarrow> notIdentifier L command s1
       | Tok_LeftParen \<Rightarrow> notIdentifier L command s1
       | Tok_RightParen \<Rightarrow> notIdentifier L command s1
       | Tok_LeftBracket \<Rightarrow> notIdentifier L command s1
       | Tok_RightBracket \<Rightarrow> notIdentifier L command s1
       | Tok_LeftCurly \<Rightarrow> notIdentifier L command s1
       | Tok_RightCurly \<Rightarrow> notIdentifier L command s1
       | Tok_Comma \<Rightarrow> notIdentifier L command s1
       | Tok_EndOfLine \<Rightarrow>
           if name command = []
           then then_do (nextToken L s1) (\<lambda>_ s2. ret (Inl command) (clear s2))
           else returnCommand L command s1
       | Tok_Comment \<Rightarrow> then_do (nextToken L s1) (\<lambda>_. ret (Inl command))
       | Tok_EndOfFile \<Rightarrow> ret (Inr command) (clear s1)
       | Tok_Unknown \<Rightarrow> then_do (nextToken L s1) (\<lambda>token. throw (UnknownToken token)))"

lemma pending_clear [simp]: "pending (clear s) = pending s"
  by (simp add: pending_def clear_def clearConsumedTokens_def unread_def)

lemma parseCommand_step_pending:
  assumes "parseCommand_step L command s = Some (Inr (Inl command'), s')"
  shows "pending s' < pending s"
proof -
  from assms obtain pk s1 s2 where p: "peekToken L s = Some (Inr pk, s1)"
    and "tok_type pk \<noteq> Tok_EndOfFile \<and> (\<exists>x. nextToken L s1 = Some (x, s2)) \<and> (s' = s2 \<or> s' = clear s2)"
    unfolding parseCommand_step_def returnCommand_def notIdentifier_def
    by (auto dest!: then_do_Some simp: throw_def ret_def
             split: token_type.splits if_splits)
  with peek_next_pending [OF p] show ?thesis by auto
qed

function parseCommand_loop :: "numlib \<Rightarrow> command \<Rightarrow> parser \<Rightarrow> command result" where
  "parseCommand_loop L command s =
     then_do (parseCommand_step L command s) (\<lambda>r s'.
       case r of
         Inl command' \<Rightarrow> parseCommand_loop L command' s'
       | Inr result \<Rightarrow> ret result s')"
  by pat_completeness auto
termination
  by (relation "measure (\<lambda>(L, command, s). pending s)") (auto intro: parseCommand_step_pending)

declare parseCommand_loop.simps [simp del]

definition parseCommand :: "numlib \<Rightarrow> parser \<Rightarrow> command result" where
  "parseCommand L s = parseCommand_loop L \<lparr>name = [], arguments = []\<rparr> s"


section \<open>Texts as streams, and evaluation\<close>

definition text_stream :: "string \<Rightarrow> raw_stream" where
  "text_stream cs = \<lparr>rs_before = [], rs_after = cs\<rparr>"

lemma unread_text [simp]: "unread (CLIInputStreamHook (text_stream cs)) = cs"
  by (simp add: unread_def CLIInputStreamHook_def text_stream_def)

lemma readComment_eq:
  "readComment h =
     (if LF \<in> set (unread h)
      then Some (mk_token Tok_Comment (takeWhile (\<lambda>c. c \<noteq> LF) (unread h))
                   (stream_position h)
                   (stream_position h + int (length (takeWhile (\<lambda>c. c \<noteq> LF) (unread h)))),
                 hook_advance (length (takeWhile (\<lambda>c. c \<noteq> LF) (unread h))) h)
      else None)"
proof (cases "LF \<in> set (unread h)")
  case True
  from readComment_loop_LF [OF this] True show ?thesis
    by (simp add: readComment_def Let_def hook_tellg_def)
next
  case False
  with readComment_loop_no_LF [of "[]" "hook_tellg h" h] have "readComment_loop [] (hook_tellg h) h = None"
    by (cases "readComment_loop [] (hook_tellg h) h") auto
  with False show ?thesis by (simp add: readComment_def)
qed

lemma readNextToken_comment:
  assumes "unread h = CHR ''#'' # cs"
  shows "readNextToken L h = (case readComment h of None \<Rightarrow> None | Some (t, h') \<Rightarrow> Some (Inr t, h'))"
proof -
  note g = hook_get_Cons [OF assms]
  obtain r h1 where gh: "hook_get h = (r, h1)" by (cases "hook_get h")
  with g have r: "r = Some CHR ''#''" and h1: "h1 = snd (hook_get h)" by simp_all
  have "hook_unget h1 = Inr h" unfolding h1 using assms by (rule hook_unget_get)
  then show ?thesis
    by (simp add: readNextToken.simps [of L h] gh r isIgnored_def TAB_def CR_def
        switchChar_def isAlpha_def isDigit_def QUOTE_def LF_def Let_def)
qed

lemma digit_char_simps:
  "digit_char 0 = CHR ''0''" "digit_char 1 = CHR ''1''" "digit_char 2 = CHR ''2''"
  "digit_char 3 = CHR ''3''" "digit_char 4 = CHR ''4''" "digit_char 5 = CHR ''5''"
  "digit_char 6 = CHR ''6''" "digit_char 7 = CHR ''7''" "digit_char 8 = CHR ''8''"
  "digit_char 9 = CHR ''9''" "digit_char (Suc 0) = CHR ''1''"
  unfolding digit_char_def by code_simp+

lemmas lexer_eval =
  readNextToken.simps switchChar_def hook_get_def raw_get_def hook_unget_def raw_unget_def
  hook_peek_def raw_peek_def hook_tellg_def readIdentifier_def readIdentifier_loop_eq
  readString_def readString_loop_eq readNumber_def readNumber_loop_eq readComment_eq
  unread_def isIgnored_def isAlpha_def isDigit_def isIdentifierChar_def isNumberChar_def
  TAB_def CR_def LF_def QUOTE_def NUL_def BACKSLASH_def EOF_char_def mk_token_def Let_def
  classifyNumber_def has_suffix_def istream_int64_def signed_decimal_def digits_val_def
  digit_val_def in_int64_def to_string_def nat_to_string.simps digit_char_simps
  CLIInputStreamHook_def text_stream_def

lemmas parser_eval =
  CLIParser_def parseCommand_def parseCommand_step_def notIdentifier_def returnCommand_def
  parseArgumentList_def parseArgumentList_step_def pushArgument_def parseArgument_def
  parseVector_def parseNumberList_def parseNumberList_step_def returnVector_def
  parseIntegerVector_def parseFloatVector_def numberOrVector_def insertInteger_def
  insertFloat_def integerArgument_def floatArgument_def expectToken_def
  peekToken_def nextToken_def lift_lexer_def then_do_def throw_def ret_def clear_def
  clearConsumedTokens_def stoll_def isSpace_def
  parseNumberList_loop.simps parseArgumentList_loop.simps parseCommand_loop.simps

section \<open>Comments\<close>

text \<open>
  C4.  When the next character is \<open>#\<close>, the lexer should read up to the next line feed or
  the end of the input and return a Comment token.  \<open>readComment\<close> does so only when a
  line feed follows: on a comment that runs to the end of the input (no line feed after
  the \<open>#\<close>) its loop is never left, and the lexer returns no token.
\<close>

theorem readComment_without_newline:
  assumes "LF \<notin> set cs"
  shows "readNextToken L (CLIInputStreamHook (text_stream (CHR ''#'' # cs))) = None"
  using assms
  by (simp add: readNextToken_comment [where cs = cs] readComment_eq LF_def)

theorem readComment_without_newline_witness:
  "LF \<notin> set ''abc'' \<and>
   (\<forall>L. readNextToken L (CLIInputStreamHook (text_stream ''#abc'')) = None)"
proof -
  have a: "LF \<notin> set ''abc''" by (simp add: LF_def)
  from readComment_without_newline [OF a] a show ?thesis by simp
qed

section \<open>Numbers\<close>

definition number_lexeme :: "string \<Rightarrow> string" where
  "number_lexeme cs = takeWhile isNumberChar cs"

lemma isNumberChar_NUL: "(c \<noteq> NUL \<and> isNumberChar c) = isNumberChar c"
  by (auto simp: isNumberChar_def NUL_def isDigit_def isAlpha_def)

lemma readNextToken_number:
  assumes u: "unread h = c # cs"
    and c: "c = CHR ''-'' \<or> c = CHR ''+'' \<or> c = CHR ''.'' \<or> isDigit c"
  shows "readNextToken L h =
     Some (Inr (classifyNumber L (number_lexeme (c # cs)) (stream_position h)
                  (stream_position h + int (length (number_lexeme (c # cs))))),
           hook_advance (length (number_lexeme (c # cs))) h)"
proof -
  note g = hook_get_Cons [OF u]
  obtain r h1 where gh: "hook_get h = (r, h1)" by (cases "hook_get h")
  with g have r: "r = Some c" and h1: "h1 = snd (hook_get h)" by simp_all
  have ug: "hook_unget h1 = Inr h" unfolding h1 using u by (rule hook_unget_get)
  from c have cls: "\<not> isIgnored c" "\<not> (isAlpha c \<or> c = CHR ''_'')" "c \<noteq> QUOTE"
    by (auto simp: isIgnored_def TAB_def CR_def isAlpha_def isDigit_def QUOTE_def)
  have "readNextToken L h = switchChar L c h1"
    using cls by (simp add: readNextToken.simps [of L h] gh r)
  also have "\<dots> = (case readNumber L h of (t, h3) \<Rightarrow> Some (Inr t, h3))"
    using cls c ug by (simp add: switchChar_def Let_def)
  finally show ?thesis
    using u by (simp add: readNumber_def readNumber_loop_eq isNumberChar_NUL number_lexeme_def
        Let_def hook_tellg_def)
qed

text \<open>
  C6.  A lexeme that starts with a digit, \<open>-\<close>, \<open>+\<close> or \<open>.\<close> is the longest run of digits,
  letters, \<open>_\<close>, \<open>.\<close>, \<open>-\<close> and \<open>+\<close>.  With a trailing \<open>f\<close> or \<open>F\<close> taken off, it is tried as
  an integer and then as a float, each read to the end of the text: an integer with no
  suffix is an Integer token, an integer with a suffix is Unknown, a float is a Float token,
  anything else is Unknown.  The value of an Integer or Float token is the printed number,
  not the text read; the value of an Unknown token is the text read.
\<close>

theorem readNumber_classification:
  assumes "unread h = c # cs"
    and "c = CHR ''-'' \<or> c = CHR ''+'' \<or> c = CHR ''.'' \<or> isDigit c"
  shows "\<exists>tok. readNextToken L h = Some (Inr tok, hook_advance (length (number_lexeme (c # cs))) h) \<and>
      tok_begin tok = stream_position h \<and>
      tok_end tok = stream_position h + int (length (number_lexeme (c # cs))) \<and>
      (let lexeme = number_lexeme (c # cs);
           candidate = (if has_suffix lexeme then butlast lexeme else lexeme)
       in case istream_int64 candidate of
            Some n \<Rightarrow>
              if has_suffix lexeme
              then tok_type tok = Tok_Unknown \<and> tok_value tok = lexeme
              else tok_type tok = Tok_Integer \<and> tok_value tok = to_string n
          | None \<Rightarrow>
              (case istream_float L candidate of
                 Some printed \<Rightarrow> tok_type tok = Tok_Float \<and> tok_value tok = printed
               | None \<Rightarrow> tok_type tok = Tok_Unknown \<and> tok_value tok = lexeme))"
  unfolding readNextToken_number [OF assms]
  by (simp add: classifyNumber_def mk_token_def Let_def butlast_conv_take split: option.splits)

theorem readNumber_classification_witness:
  "\<forall>L. map_option fst (readNextToken L (CLIInputStreamHook (text_stream ''+007 ''))) =
         Some (Inr \<lparr>tok_type = Tok_Integer, tok_value = ''7'', tok_begin = 0, tok_end = 4\<rparr>) \<and>
       map_option fst (readNextToken L (CLIInputStreamHook (text_stream ''12f''))) =
         Some (Inr \<lparr>tok_type = Tok_Unknown, tok_value = ''12f'', tok_begin = 0, tok_end = 3\<rparr>)"
proof (intro allI conjI)
  fix L
  let ?h = "CLIInputStreamHook (text_stream ''+007 '')"
  have u: "unread ?h = CHR ''+'' # ''007 ''" by simp
  have c: "CHR ''+'' = CHR ''-'' \<or> CHR ''+'' = CHR ''+'' \<or> CHR ''+'' = CHR ''.'' \<or> isDigit CHR ''+''"
    by simp
  from readNumber_classification [OF u c, of L]
  obtain tok h' where "readNextToken L ?h = Some (Inr tok, h')"
    and "tok_begin tok = 0" "tok_end tok = 4" "tok_type tok = Tok_Integer" "tok_value tok = ''7''"
    by (auto simp: number_lexeme_def isNumberChar_def isDigit_def isAlpha_def has_suffix_def
        istream_int64_def signed_decimal_def digits_val_def digit_val_def in_int64_def
        to_string_def nat_to_string.simps digit_char_simps CLIInputStreamHook_def Let_def)
  then show "map_option fst (readNextToken L ?h) =
         Some (Inr \<lparr>tok_type = Tok_Integer, tok_value = ''7'', tok_begin = 0, tok_end = 4\<rparr>)"
    by (cases tok) simp
next
  fix L
  let ?h = "CLIInputStreamHook (text_stream ''12f'')"
  have u: "unread ?h = CHR ''1'' # ''2f''" by simp
  have c: "CHR ''1'' = CHR ''-'' \<or> CHR ''1'' = CHR ''+'' \<or> CHR ''1'' = CHR ''.'' \<or> isDigit CHR ''1''"
    by (simp add: isDigit_def)
  from readNumber_classification [OF u c, of L]
  obtain tok h' where "readNextToken L ?h = Some (Inr tok, h')"
    and "tok_begin tok = 0" "tok_end tok = 3" "tok_type tok = Tok_Unknown" "tok_value tok = ''12f''"
    by (auto simp: number_lexeme_def isNumberChar_def isDigit_def isAlpha_def has_suffix_def
        istream_int64_def signed_decimal_def digits_val_def digit_val_def in_int64_def
        to_string_def nat_to_string.simps digit_char_simps CLIInputStreamHook_def Let_def)
  then show "map_option fst (readNextToken L ?h) =
         Some (Inr \<lparr>tok_type = Tok_Unknown, tok_value = ''12f'', tok_begin = 0, tok_end = 3\<rparr>)"
    by (cases tok) simp
qed

section \<open>Examples\<close>

text \<open>
  The number library on the float texts of the examples: \<open>2.5\<close> and \<open>2.0\<close> are read and
  printed by \<open>std::to_string\<close> with six decimals.
\<close>

definition example_numlib :: numlib where
  "example_numlib =
     \<lparr>istream_float = (\<lambda>s. if s = ''2.5'' then Some ''2.500000''
                            else if s = ''2.0'' then Some ''2.000000'' else None),
      stod_as_int64 = (\<lambda>s. if s = ''2.500000'' \<or> s = ''2.000000'' then 2 else 0)\<rparr>"

definition parse_text :: "string \<Rightarrow> (error + command) option" where
  "parse_text cs = map_option fst (parseCommand example_numlib (CLIParser (text_stream cs)))"

section \<open>Numbers with no comma between them\<close>

lemma parseNumberList_loop_throw:
  "parseNumberList_step L v s = Some (Inl e, s') \<Longrightarrow> parseNumberList_loop L v s = Some (Inl e, s')"
  by (simp add: parseNumberList_loop.simps [of L v s] then_do_def)

lemma parseNumberList_loop_return:
  "parseNumberList_step L v s = Some (Inr (Inr a), s') \<Longrightarrow> parseNumberList_loop L v s = Some (Inr a, s')"
  by (simp add: parseNumberList_loop.simps [of L v s] then_do_def ret_def)

lemma parseNumberList_loop_continue:
  "parseNumberList_step L v s = Some (Inr (Inl v'), s') \<Longrightarrow>
     parseNumberList_loop L v s = parseNumberList_loop L v' s'"
  by (simp add: parseNumberList_loop.simps [of L v s] then_do_def)

lemma nextToken_peeked:
  "peekToken L s = Some (Inr pk, s1) \<Longrightarrow>
     nextToken L s1 = Some (Inr pk, s1\<lparr>peeked_token := None\<rparr>)"
  using peekToken_slot [of L s "Inr pk" s1] by (auto simp: nextToken_def ret_def)

text \<open>
  In the loop of \<open>parseNumberList\<close>, a number where a comma was expected ends the list
  and stays in the lookahead when \<open>tokens\<close> holds two numbers at least; it is an error (a
  comma was expected) when \<open>tokens\<close> holds exactly one.  A comma where a number was
  expected is always an error (a number was expected).
\<close>

lemma parseNumberList_juxtaposed:
  assumes "peekToken L s = Some (Inr pk, s1)"
  shows "((tok_type pk = Tok_Integer \<or> tok_type pk = Tok_Float) \<and> \<not> comma v \<and> 2 \<le> length (tokens v) \<longrightarrow>
            peeked_token s1 = Some pk \<and>
            parseNumberList_loop L v s =
              (case (if integer_vector v then parseIntegerVector L (tokens v)
                     else parseFloatVector (tokens v)) of
                 Inl e \<Rightarrow> Some (Inl e, s1)
               | Inr arg \<Rightarrow> Some (Inr arg, s1))) \<and>
         ((tok_type pk = Tok_Integer \<or> tok_type pk = Tok_Float) \<and> \<not> comma v \<and> length (tokens v) = 1 \<longrightarrow>
            parseNumberList_loop L v s =
              Some (Inl (UnexpectedTokenType Tok_Comma pk), s1\<lparr>peeked_token := None\<rparr>)) \<and>
         (tok_type pk = Tok_Comma \<and> comma v \<longrightarrow>
            parseNumberList_loop L v s =
              Some (Inl (UnexpectedTokenText ''number'' pk), s1\<lparr>peeked_token := None\<rparr>))"
proof (intro conjI impI)
  assume a: "(tok_type pk = Tok_Integer \<or> tok_type pk = Tok_Float) \<and> \<not> comma v \<and> 2 \<le> length (tokens v)"
  show "peeked_token s1 = Some pk" using peekToken_slot [OF assms] by simp
  from a assms have st: "parseNumberList_step L v s = returnVector L v s1"
    by (auto simp: parseNumberList_step_def then_do_def)
  show "parseNumberList_loop L v s =
          (case (if integer_vector v then parseIntegerVector L (tokens v)
                 else parseFloatVector (tokens v)) of
             Inl e \<Rightarrow> Some (Inl e, s1)
           | Inr arg \<Rightarrow> Some (Inr arg, s1))"
    by (simp add: parseNumberList_loop.simps [of L v s] st returnVector_def then_do_def
        throw_def ret_def split: sum.splits)
next
  assume a: "(tok_type pk = Tok_Integer \<or> tok_type pk = Tok_Float) \<and> \<not> comma v \<and> length (tokens v) = 1"
  with assms nextToken_peeked [OF assms]
  have "parseNumberList_step L v s =
          Some (Inl (UnexpectedTokenType Tok_Comma pk), s1\<lparr>peeked_token := None\<rparr>)"
    by (auto simp: parseNumberList_step_def then_do_def throw_def)
  then show "parseNumberList_loop L v s =
          Some (Inl (UnexpectedTokenType Tok_Comma pk), s1\<lparr>peeked_token := None\<rparr>)"
    by (rule parseNumberList_loop_throw)
next
  assume a: "tok_type pk = Tok_Comma \<and> comma v"
  with assms nextToken_peeked [OF assms]
  have "parseNumberList_step L v s =
          Some (Inl (UnexpectedTokenText ''number'' pk), s1\<lparr>peeked_token := None\<rparr>)"
    by (auto simp: parseNumberList_step_def then_do_def throw_def)
  then show "parseNumberList_loop L v s =
          Some (Inl (UnexpectedTokenText ''number'' pk), s1\<lparr>peeked_token := None\<rparr>)"
    by (rule parseNumberList_loop_throw)
qed

section \<open>Curly blocks\<close>

lemma parseArgumentList_loop_throw:
  "parseArgumentList_step L v s = Some (Inl e, s') \<Longrightarrow>
     parseArgumentList_loop L v s = Some (Inl e, s')"
  by (simp add: parseArgumentList_loop.simps [of L v s] then_do_def)

text \<open>
  C8.  In an argument list, a \<open>{\<close> while a block is open and a \<open>}\<close> while none is open
  raise a MismatchedToken error that carries the token; the end of the input while a block
  is open raises an UnexpectedToken error that expects the right curly.
\<close>

theorem curly_block_errors:
  assumes "peekToken L s = Some (Inr pk, s1)"
  shows "(tok_type pk = Tok_LeftCurly \<longrightarrow>
            parseArgumentList_loop L (True, args) s =
              Some (Inl (MismatchedToken pk), s1\<lparr>peeked_token := None\<rparr>)) \<and>
         (tok_type pk = Tok_RightCurly \<longrightarrow>
            parseArgumentList_loop L (False, args) s =
              Some (Inl (MismatchedToken pk), s1\<lparr>peeked_token := None\<rparr>)) \<and>
         (tok_type pk = Tok_EndOfFile \<longrightarrow>
            parseArgumentList_loop L (True, args) s =
              Some (Inl (UnexpectedTokenType Tok_RightCurly pk), s1\<lparr>peeked_token := None\<rparr>))"
proof (intro conjI impI)
  assume "tok_type pk = Tok_LeftCurly"
  with assms nextToken_peeked [OF assms]
  have "parseArgumentList_step L (True, args) s =
          Some (Inl (MismatchedToken pk), s1\<lparr>peeked_token := None\<rparr>)"
    by (simp add: parseArgumentList_step_def then_do_def throw_def)
  then show "parseArgumentList_loop L (True, args) s =
          Some (Inl (MismatchedToken pk), s1\<lparr>peeked_token := None\<rparr>)"
    by (rule parseArgumentList_loop_throw)
next
  assume "tok_type pk = Tok_RightCurly"
  with assms nextToken_peeked [OF assms]
  have "parseArgumentList_step L (False, args) s =
          Some (Inl (MismatchedToken pk), s1\<lparr>peeked_token := None\<rparr>)"
    by (simp add: parseArgumentList_step_def then_do_def throw_def)
  then show "parseArgumentList_loop L (False, args) s =
          Some (Inl (MismatchedToken pk), s1\<lparr>peeked_token := None\<rparr>)"
    by (rule parseArgumentList_loop_throw)
next
  assume "tok_type pk = Tok_EndOfFile"
  with assms nextToken_peeked [OF assms]
  have "parseArgumentList_step L (True, args) s =
          Some (Inl (UnexpectedTokenType Tok_RightCurly pk), s1\<lparr>peeked_token := None\<rparr>)"
    by (simp add: parseArgumentList_step_def then_do_def throw_def)
  then show "parseArgumentList_loop L (True, args) s =
          Some (Inl (UnexpectedTokenType Tok_RightCurly pk), s1\<lparr>peeked_token := None\<rparr>)"
    by (rule parseArgumentList_loop_throw)
qed

text \<open>
  The three errors at the start of an argument list, and the statement \<open>cmd }\<close>, whose
  error carries the \<open>}\<close> at offsets 4 to 5; also a block left open at the end of the input.
\<close>

theorem curly_block_errors_witness:
  "map_option fst (parseArgumentList_loop example_numlib (True, []) (CLIParser (text_stream ''{''))) =
     Some (Inl (MismatchedToken (mk_token Tok_LeftCurly ''{'' 0 1))) \<and>
   map_option fst (parseArgumentList_loop example_numlib (False, []) (CLIParser (text_stream ''}''))) =
     Some (Inl (MismatchedToken (mk_token Tok_RightCurly ''}'' 0 1))) \<and>
   map_option fst (parseArgumentList_loop example_numlib (True, []) (CLIParser (text_stream ''''))) =
     Some (Inl (UnexpectedTokenType Tok_RightCurly (mk_token Tok_EndOfFile '''' 0 0))) \<and>
   parse_text (''cmd }'' @ [LF]) =
     Some (Inl (MismatchedToken (mk_token Tok_RightCurly ''}'' 4 5))) \<and>
   parse_text (''cmd { a'' @ [LF]) =
     Some (Inl (UnexpectedTokenType Tok_RightCurly (mk_token Tok_EndOfFile '''' 8 8)))"
proof -
  let ?L = example_numlib
  obtain s1 where p1: "peekToken ?L (CLIParser (text_stream ''{'')) =
      Some (Inr (mk_token Tok_LeftCurly ''{'' 0 1), s1)"
    by (simp add: lexer_eval parser_eval)
  obtain s2 where p2: "peekToken ?L (CLIParser (text_stream ''}'')) =
      Some (Inr (mk_token Tok_RightCurly ''}'' 0 1), s2)"
    by (simp add: lexer_eval parser_eval)
  obtain s3 where p3: "peekToken ?L (CLIParser (text_stream '''')) =
      Some (Inr (mk_token Tok_EndOfFile '''' 0 0), s3)"
    by (simp add: lexer_eval parser_eval)
  have "map_option fst (parseArgumentList_loop ?L (True, []) (CLIParser (text_stream ''{''))) =
     Some (Inl (MismatchedToken (mk_token Tok_LeftCurly ''{'' 0 1)))"
    using curly_block_errors [OF p1, of "[]"] by (simp add: mk_token_def)
  moreover have "map_option fst (parseArgumentList_loop ?L (False, []) (CLIParser (text_stream ''}''))) =
     Some (Inl (MismatchedToken (mk_token Tok_RightCurly ''}'' 0 1)))"
    using curly_block_errors [OF p2, of "[]"] by (simp add: mk_token_def)
  moreover have "map_option fst (parseArgumentList_loop ?L (True, []) (CLIParser (text_stream ''''))) =
     Some (Inl (UnexpectedTokenType Tok_RightCurly (mk_token Tok_EndOfFile '''' 0 0)))"
    using curly_block_errors [OF p3, of "[]"] by (simp add: mk_token_def)
  moreover have "parse_text (''cmd }'' @ [LF]) =
     Some (Inl (MismatchedToken (mk_token Tok_RightCurly ''}'' 4 5)))"
    by (simp add: parse_text_def lexer_eval parser_eval)
  moreover have "parse_text (''cmd { a'' @ [LF]) =
     Some (Inl (UnexpectedTokenType Tok_RightCurly (mk_token Tok_EndOfFile '''' 8 8)))"
    by (simp add: parse_text_def lexer_eval parser_eval)
  ultimately show ?thesis by simp
qed

section \<open>Clearing the consumed characters\<close>

definition cleared :: "parser \<Rightarrow> bool" where
  "cleared s =
     (consumed_chars (stream_hook s) = [] \<and>
      position (stream_hook s) = stream_position (stream_hook s) \<and>
      line_number (stream_hook s) = current_line_number (stream_hook s))"

lemma cleared_clear: "cleared (clear s)"
  by (simp add: cleared_def clear_def clearConsumedTokens_def)

lemma returnCommand_cleared:
  "returnCommand L command s = Some (Inr r, s') \<Longrightarrow> cleared s'"
  by (auto simp: returnCommand_def ret_def cleared_clear dest!: then_do_Some)

lemma parseCommand_step_cleared:
  assumes "parseCommand_step L command s = Some (Inr (Inr result), s')"
  shows "cleared s'"
proof -
  from assms obtain pk s1 where "peekToken L s = Some (Inr pk, s1)"
    and "(\<exists>r. returnCommand L command s1 = Some (Inr r, s')) \<or> s' = clear s1"
    unfolding parseCommand_step_def notIdentifier_def
    by (auto dest!: then_do_Some simp: throw_def ret_def split: token_type.splits if_splits)
  then show ?thesis by (auto intro: returnCommand_cleared cleared_clear)
qed

lemma parseCommand_loop_cleared:
  "parseCommand_loop L command s = Some (Inr result, s') \<Longrightarrow> cleared s'"
proof (induction L command s rule: parseCommand_loop.induct)
  case (1 L command s)
  from "1.prems" obtain r s1 where st: "parseCommand_step L command s = Some (Inr r, s1)"
    and k: "(case r of Inl command' \<Rightarrow> parseCommand_loop L command' s1
             | Inr result \<Rightarrow> ret result s1) = Some (Inr result, s')"
    by (auto simp: parseCommand_loop.simps [of L command s] dest!: then_do_Some)
  show ?case
  proof (cases r)
    case (Inl command')
    with k "1.IH" [OF st] show ?thesis by simp
  next
    case (Inr res)
    with k st parseCommand_step_cleared [of L command s res s1] show ?thesis
      by (simp add: ret_def)
  qed
qed

text \<open>
  C3.  When \<open>parseCommand\<close> returns a command, the consumed characters have been cleared
  and the checkpoint is at the current position and line of the stream.  (When it raises
  an error the hook is left as the lexer left it: nothing is cleared.)
\<close>

theorem parseCommand_clears_on_return:
  assumes "parseCommand L s = Some (Inr result, s')"
  shows "consumed_chars (stream_hook s') = [] \<and>
         position (stream_hook s') = stream_position (stream_hook s') \<and>
         line_number (stream_hook s') = current_line_number (stream_hook s')"
  using parseCommand_loop_cleared [of L _ s result s'] assms
  by (simp add: parseCommand_def cleared_def)

definition hook_summary :: "parser \<Rightarrow> string \<times> int \<times> int \<times> int \<times> int" where
  "hook_summary s =
     (consumed_chars (stream_hook s), position (stream_hook s), stream_position (stream_hook s),
      line_number (stream_hook s), current_line_number (stream_hook s))"

theorem parseCommand_clears_on_return_witness:
  "map_option (map_prod id hook_summary)
     (parseCommand example_numlib (CLIParser (text_stream (''cmd a'' @ [LF] @ ''next'')))) =
   Some (Inr \<lparr>name = ''cmd'', arguments = [Arg_Identifier ''a'']\<rparr>, ([], 6, 6, 2, 2))"
proof -
  obtain s' where r: "parseCommand example_numlib (CLIParser (text_stream (''cmd a'' @ [LF] @ ''next''))) =
      Some (Inr \<lparr>name = ''cmd'', arguments = [Arg_Identifier ''a'']\<rparr>, s')"
    and "stream_position (stream_hook s') = 6" "current_line_number (stream_hook s') = 2"
    by (simp add: lexer_eval parser_eval)
  with parseCommand_clears_on_return [OF r] show ?thesis
    by (simp add: hook_summary_def)
qed

text \<open>A caller that goes on after an error: \<open>parseCommand\<close> again, on the state left.\<close>

definition parseCommand_after_error :: "numlib \<Rightarrow> parser \<Rightarrow> command result" where
  "parseCommand_after_error L s =
     (case parseCommand L s of
        Some (Inl e, s') \<Rightarrow> parseCommand L s'
      | r \<Rightarrow> r)"

text \<open>
  After the error of \<open>cmd }\<close> the five characters read are still in the buffer and the
  checkpoint is still at offset 0, while the stream is at offset 5.  On \<open>a } b }\<close> the
  second call fails in its turn, and the buffer then holds the text of both statements.
\<close>

theorem buffer_after_error_counterexample:
  "map_option (map_prod id hook_summary)
     (parseCommand example_numlib (CLIParser (text_stream (''cmd }'' @ [LF])))) =
   Some (Inl (MismatchedToken (mk_token Tok_RightCurly ''}'' 4 5)), (''cmd }'', 0, 5, 1, 1)) \<and>
   map_option (map_prod id hook_summary)
     (parseCommand_after_error example_numlib (CLIParser (text_stream (''a } b }'' @ [LF])))) =
   Some (Inl (MismatchedToken (mk_token Tok_RightCurly ''}'' 6 7)), (''a } b }'', 0, 7, 1, 1))"
  by (simp add: hook_summary_def parseCommand_after_error_def lexer_eval parser_eval)

section \<open>The end of the input\<close>

text \<open>
  What the lexer guarantees of the token in the lookahead: an identifier has at least one
  character, and the end-of-file token is made when nothing is left to read.
\<close>

definition slot_ok :: "parser \<Rightarrow> bool" where
  "slot_ok s =
     (case peeked_token s of
        None \<Rightarrow> True
      | Some t \<Rightarrow>
          (tok_type t = Tok_Identifier \<longrightarrow> tok_value t \<noteq> []) \<and>
          (tok_type t = Tok_EndOfFile \<longrightarrow> unread (stream_hook s) = []))"

lemma lexed_slot:
  "lexed h t h' \<Longrightarrow>
     (tok_type t = Tok_Identifier \<longrightarrow> tok_value t \<noteq> []) \<and>
     (tok_type t = Tok_EndOfFile \<longrightarrow> unread h' = [])"
  unfolding lexed_def using hook_advance_props by (auto split: if_splits)

lemma peekToken_slot_ok:
  "slot_ok s \<Longrightarrow> peekToken L s = Some (Inr t, s1) \<Longrightarrow>
     slot_ok s1 \<and> (tok_type t = Tok_Identifier \<longrightarrow> tok_value t \<noteq> []) \<and>
     (tok_type t = Tok_EndOfFile \<longrightarrow> unread (stream_hook s1) = [])"
  by (erule peekToken_cases) (auto simp: slot_ok_def dest: lexed_slot)

lemma nextToken_slot_ok:
  "slot_ok s \<Longrightarrow> nextToken L s = Some (Inr t, s1) \<Longrightarrow>
     slot_ok s1 \<and> (tok_type t = Tok_Identifier \<longrightarrow> tok_value t \<noteq> [])"
  by (erule nextToken_cases) (auto simp: slot_ok_def dest: lexed_slot)

lemma slot_ok_clear [simp]: "slot_ok (clear s) = slot_ok s"
  by (cases "peeked_token s") (simp_all add: slot_ok_def clear_def clearConsumedTokens_def unread_def)

lemma returnCommand_name:
  "returnCommand L command s = Some (Inr r, s') \<Longrightarrow> \<exists>c. r = Inr c \<and> name c = name command"
  by (auto simp: returnCommand_def ret_def dest!: then_do_Some)

definition at_end :: "parser \<Rightarrow> bool" where
  "at_end s =
     (unread (stream_hook s) = [] \<and>
      (case peeked_token s of None \<Rightarrow> False | Some t \<Rightarrow> tok_type t = Tok_EndOfFile))"

text \<open>A turn of the loop of \<open>parseCommand\<close>, given the token in the lookahead.\<close>

lemma parseCommand_step_peeked:
  assumes p: "peekToken L s = Some (Inr pk, s1)"
  shows "parseCommand_step L command s =
     (if tok_type pk = Tok_EndOfFile then Some (Inr (Inr command), clear s1)
      else if tok_type pk = Tok_Comment then Some (Inr (Inl command), s1\<lparr>peeked_token := None\<rparr>)
      else if tok_type pk = Tok_Unknown then Some (Inl (UnknownToken pk), s1\<lparr>peeked_token := None\<rparr>)
      else if name command \<noteq> [] then returnCommand L command s1
      else if tok_type pk = Tok_Identifier
        then Some (Inr (Inl (command\<lparr>name := tok_value pk\<rparr>)), s1\<lparr>peeked_token := None\<rparr>)
      else if tok_type pk = Tok_EndOfLine
        then Some (Inr (Inl command), clear (s1\<lparr>peeked_token := None\<rparr>))
      else Some (Inl (UnexpectedTokenType Tok_Identifier pk), s1\<lparr>peeked_token := None\<rparr>))"
  using nextToken_peeked [OF p]
  by (cases "tok_type pk")
     (simp_all add: parseCommand_step_def then_do_def p ret_def throw_def notIdentifier_def)


lemma parseCommand_step_peek:
  "parseCommand_step L command s = Some (x, s') \<Longrightarrow> \<exists>pk s1. peekToken L s = Some (Inr pk, s1)"
  unfolding parseCommand_step_def using peekToken_slot [of L s]
  by (cases "peekToken L s") (auto simp: then_do_def split: sum.splits)

lemma parseCommand_step_continue:
  assumes ok: "slot_ok s"
    and st: "parseCommand_step L command s = Some (Inr (Inl c), s')"
  shows "slot_ok s' \<and> (name command = [] \<longrightarrow> arguments c = arguments command) \<and>
         (name command \<noteq> [] \<longrightarrow> name c \<noteq> [])"
proof -
  from parseCommand_step_peek [OF st] obtain pk s1 where p: "peekToken L s = Some (Inr pk, s1)"
    by blast
  note pk = peekToken_slot_ok [OF ok p]
  have ok2: "slot_ok (s1\<lparr>peeked_token := None\<rparr>)" by (simp add: slot_ok_def)
  have rc: "returnCommand L command s1 \<noteq> Some (Inr (Inl c), s')"
    using returnCommand_name [of L command s1 "Inl c" s'] by auto
  from st pk ok2 rc show ?thesis
    unfolding parseCommand_step_peeked [OF p]
    by (auto split: if_splits)
qed

lemma parseCommand_step_return:
  assumes ok: "slot_ok s"
    and st: "parseCommand_step L command s = Some (Inr (Inr c), s')"
  shows "name c = name command \<and> (name c = [] \<longrightarrow> c = command \<and> at_end s')"
proof -
  from parseCommand_step_peek [OF st] obtain pk s1 where p: "peekToken L s = Some (Inr pk, s1)"
    by blast
  note pk = peekToken_slot_ok [OF ok p]
  have e: "tok_type pk = Tok_EndOfFile \<Longrightarrow> at_end (clear s1)"
    using pk peekToken_slot [OF p]
    by (simp add: at_end_def clear_def clearConsumedTokens_def unread_def)
  have rc: "returnCommand L command s1 = Some (Inr (Inr c), s') \<Longrightarrow> name c = name command"
    using returnCommand_name [of L command s1 "Inr c" s'] by auto
  from st e rc show ?thesis
    unfolding parseCommand_step_peeked [OF p]
    by (auto split: if_splits)
qed

lemma parseCommand_loop_empty_name:
  "slot_ok s \<Longrightarrow> parseCommand_loop L command s = Some (Inr result, s') \<Longrightarrow> name result = [] \<Longrightarrow>
     name command = [] \<and> arguments result = arguments command \<and> at_end s'"
proof (induction L command s rule: parseCommand_loop.induct)
  case (1 L command s)
  from "1.prems"(2) obtain r s1 where st: "parseCommand_step L command s = Some (Inr r, s1)"
    and k: "(case r of Inl command' \<Rightarrow> parseCommand_loop L command' s1
             | Inr result \<Rightarrow> ret result s1) = Some (Inr result, s')"
    by (auto simp: parseCommand_loop.simps [of L command s] dest!: then_do_Some)
  show ?case
  proof (cases r)
    case (Inl command')
    have st': "parseCommand_step L command s = Some (Inr (Inl command'), s1)"
      using st Inl by simp
    from parseCommand_step_continue [OF "1.prems"(1) st'] have ok1: "slot_ok s1"
      and a: "name command = [] \<longrightarrow> arguments command' = arguments command"
      and n: "name command \<noteq> [] \<longrightarrow> name command' \<noteq> []" by auto
    from k Inl have "parseCommand_loop L command' s1 = Some (Inr result, s')" by simp
    from "1.IH" [OF st Inl ok1 this "1.prems"(3)]
    have i: "name command' = []" "arguments result = arguments command'" "at_end s'"
      by blast+
    from i(1) n have "name command = []" by blast
    moreover from this a i(2) have "arguments result = arguments command" by metis
    ultimately show ?thesis using i(3) by blast
  next
    case (Inr c)
    have st': "parseCommand_step L command s = Some (Inr (Inr c), s1)"
      using st Inr by simp
    from k Inr have rs: "result = c" "s' = s1" by (simp_all add: ret_def)
    from parseCommand_step_return [OF "1.prems"(1) st']
    have nc: "name c = name command" and imp: "name c = [] \<longrightarrow> c = command \<and> at_end s1"
      by blast+
    from "1.prems"(3) rs(1) have "name c = []" by blast
    with nc imp rs show ?thesis by metis
  qed
qed

lemma parseCommand_loop_return:
  "parseCommand_step L command s = Some (Inr (Inr c), s') \<Longrightarrow>
     parseCommand_loop L command s = Some (Inr c, s')"
  by (simp add: parseCommand_loop.simps [of L command s] then_do_def ret_def)

text \<open>
  C9.  At the end of the input (the end-of-file token is next and no name has been read),
  \<open>parseCommand\<close> returns the command with the empty name and no arguments, and raises
  no error; so does it on the empty input.  A command with the empty name is returned
  only there: the input is then exhausted and the end-of-file token is in the lookahead.
\<close>

theorem end_of_input_sentinel:
  "(peekToken L s = Some (Inr pk, s1) \<and> tok_type pk = Tok_EndOfFile \<longrightarrow>
      parseCommand L s = Some (Inr \<lparr>name = [], arguments = []\<rparr>, clear s1)) \<and>
   (\<exists>s'. parseCommand L (CLIParser (text_stream [])) = Some (Inr \<lparr>name = [], arguments = []\<rparr>, s')) \<and>
   (peeked_token s = None \<and> parseCommand L s = Some (Inr result, s') \<and> name result = [] \<longrightarrow>
      arguments result = [] \<and> unread (stream_hook s') = [] \<and>
      (\<exists>t. peeked_token s' = Some t \<and> tok_type t = Tok_EndOfFile))"
proof -
  have 1: "parseCommand L s = Some (Inr \<lparr>name = [], arguments = []\<rparr>, clear s1)"
    if a: "peekToken L s = Some (Inr pk, s1) \<and> tok_type pk = Tok_EndOfFile"
  proof -
  from a have "parseCommand_step L \<lparr>name = [], arguments = []\<rparr> s =
      Some (Inr (Inr \<lparr>name = [], arguments = []\<rparr>), clear s1)"
    using parseCommand_step_peeked [of L s pk s1] by simp
  then show ?thesis
    unfolding parseCommand_def by (rule parseCommand_loop_return)
  qed
  have 2: "\<exists>s'. parseCommand L (CLIParser (text_stream [])) = Some (Inr \<lparr>name = [], arguments = []\<rparr>, s')"
    by (simp add: lexer_eval parser_eval)
  have 3: "arguments result = [] \<and> unread (stream_hook s') = [] \<and>
      (\<exists>t. peeked_token s' = Some t \<and> tok_type t = Tok_EndOfFile)"
    if a: "peeked_token s = None \<and> parseCommand L s = Some (Inr result, s') \<and> name result = []"
  proof -
  from a have "slot_ok s" by (simp add: slot_ok_def)
  from parseCommand_loop_empty_name [OF this, of L "\<lparr>name = [], arguments = []\<rparr>" result s'] a
  have "arguments result = []" "at_end s'" by (simp_all add: parseCommand_def)
  then show ?thesis
    by (auto simp: at_end_def split: option.splits)
  qed
  from 1 2 3 show ?thesis by blast
qed

theorem end_of_input_sentinel_witness:
  "parse_text [] = Some (Inr \<lparr>name = [], arguments = []\<rparr>) \<and>
   parse_text ([LF] @ '' '' @ [LF]) = Some (Inr \<lparr>name = [], arguments = []\<rparr>) \<and>
   map_option (map_prod id (\<lambda>s'. unread (stream_hook s')))
     (parseCommand example_numlib (CLIParser (text_stream ([LF] @ '' '' @ [LF])))) =
     Some (Inr \<lparr>name = [], arguments = []\<rparr>, [])"
proof -
  let ?L = example_numlib
  obtain s1 where p: "peekToken ?L (CLIParser (text_stream [])) =
      Some (Inr (mk_token Tok_EndOfFile [] 0 0), s1)"
    by (simp add: lexer_eval parser_eval)
  have t: "tok_type (mk_token Tok_EndOfFile [] 0 0) = Tok_EndOfFile" by (simp add: mk_token_def)
  from end_of_input_sentinel [of ?L "CLIParser (text_stream [])" "mk_token Tok_EndOfFile [] 0 0" s1] p t
  have 1: "parse_text [] = Some (Inr \<lparr>name = [], arguments = []\<rparr>)"
    by (simp add: parse_text_def)
  obtain s2 where r: "parseCommand ?L (CLIParser (text_stream ([LF] @ '' '' @ [LF]))) =
      Some (Inr \<lparr>name = [], arguments = []\<rparr>, s2)"
    by (simp add: lexer_eval parser_eval)
  then have 2: "parse_text ([LF] @ '' '' @ [LF]) = Some (Inr \<lparr>name = [], arguments = []\<rparr>)"
    by (simp add: parse_text_def)
  have pn: "peeked_token (CLIParser (text_stream ([LF] @ '' '' @ [LF]))) = None"
    by (simp add: CLIParser_def)
  from end_of_input_sentinel [of ?L "CLIParser (text_stream ([LF] @ '' '' @ [LF]))" _ _
      "\<lparr>name = [], arguments = []\<rparr>" s2] r pn
  have "unread (stream_hook s2) = []" by simp
  with 1 2 r show ?thesis by simp
qed

section \<open>String literals\<close>

text \<open>
  The text between the quotes of a literal: \<open>unescape\<close> gives its value and whether it ends
  with an escape still open, and nothing when the text holds a quote that is not escaped.
  A backslash escapes what follows: an escaped line feed gives nothing, an escaped carriage
  return gives nothing and leaves the escape open (so that backslash, carriage return,
  line feed gives nothing as a whole), any other escaped character gives itself.
\<close>

fun unescape :: "bool \<Rightarrow> string \<Rightarrow> (string \<times> bool) option" where
  "unescape escape [] = Some ([], escape)"
| "unescape escape (c # cs) =
     (if escape then
        (if c = CR then unescape True cs
         else if c = LF then unescape False cs
         else map_option (apfst ((#) c)) (unescape False cs))
      else if c = BACKSLASH then unescape True cs
      else if c = QUOTE then None
      else map_option (apfst ((#) c)) (unescape False cs))"

lemma literal_closed:
  "unescape escape body = Some (v, False) \<Longrightarrow>
     literal_value escape (body @ QUOTE # rest) = v \<and>
     literal_length escape (body @ QUOTE # rest) = Suc (length body)"
proof (induction body arbitrary: escape v)
  case Nil
  then show ?case by (simp add: QUOTE_def BACKSLASH_def)
next
  case (Cons c cs)
  then show ?case by (auto split: if_splits)
qed

lemma literal_open:
  "unescape escape body = Some (v, e) \<Longrightarrow>
     literal_value escape body = v \<and> literal_length escape body = length body"
proof (induction body arbitrary: escape v)
  case Nil
  then show ?case by simp
next
  case (Cons c cs)
  then show ?case by (auto split: if_splits)
qed

lemma readNextToken_string:
  assumes u: "unread h = QUOTE # cs"
  shows "readNextToken L h =
     Some (Inr (mk_token Tok_String (literal_value False cs) (stream_position h)
                  (stream_position h + 1 + int (literal_length False cs))),
           hook_advance (Suc (literal_length False cs)) h)"
proof -
  note g = hook_get_Cons [OF u]
  obtain r h1 where gh: "hook_get h = (r, h1)" by (cases "hook_get h")
  with g have r: "r = Some QUOTE" and h1: "h1 = snd (hook_get h)" and u1: "unread h1 = cs"
    and sp: "stream_position h1 = stream_position h + 1" by simp_all
  have cls: "\<not> isIgnored QUOTE" "\<not> (isAlpha QUOTE \<or> QUOTE = CHR ''_'')"
    by (auto simp: isIgnored_def TAB_def CR_def isAlpha_def QUOTE_def)
  have "readNextToken L h = switchChar L QUOTE h1"
    using cls by (simp add: readNextToken.simps [of L h] gh r)
  also have "\<dots> = (case readString h1 of (t, h3) \<Rightarrow> Some (Inr t, h3))"
    using cls by (simp add: switchChar_def Let_def)
  finally show ?thesis
    using u1 sp h1 by (simp add: readString_def readString_loop_eq Let_def hook_tellg_def)
qed

text \<open>
  C7.  A string literal is read up to the first quote that is not escaped.  Its value is
  the text between the quotes with the escapes resolved (as \<open>unescape\<close> says), the token
  begins at the offset of the opening quote and ends one past the closing quote.
\<close>

theorem readString_literal:
  assumes "unread h = QUOTE # body @ QUOTE # rest"
    and "unescape False body = Some (v, False)"
  shows "readNextToken L h =
     Some (Inr (mk_token Tok_String v (stream_position h)
                  (stream_position h + int (length body) + 2)),
           hook_advance (length body + 2) h)"
proof -
  have n: "length body + 2 = Suc (Suc (length body))" by simp
  from literal_closed [OF assms(2), of rest] show ?thesis
    unfolding n by (simp add: readNextToken_string [OF assms(1)] mk_token_def)
qed


text \<open>
  The literals \<open>"hello"\<close>, \<open>"a\\<close> line feed \<open>b"\<close>, and the same with a carriage return
  before the line feed.
\<close>

theorem readString_literal_witness:
  "map_option fst (readNextToken example_numlib
       (CLIInputStreamHook (text_stream ([QUOTE] @ ''hello'' @ [QUOTE])))) =
     Some (Inr (mk_token Tok_String ''hello'' 0 7)) \<and>
   map_option fst (readNextToken example_numlib
       (CLIInputStreamHook (text_stream ([QUOTE] @ ''a'' @ [BACKSLASH, LF] @ ''b'' @ [QUOTE])))) =
     Some (Inr (mk_token Tok_String ''ab'' 0 6)) \<and>
   map_option fst (readNextToken example_numlib
       (CLIInputStreamHook (text_stream ([QUOTE] @ ''a'' @ [BACKSLASH, CR, LF] @ ''b'' @ [QUOTE])))) =
     Some (Inr (mk_token Tok_String ''ab'' 0 7))"
proof -
  have c: "QUOTE \<noteq> BACKSLASH" "CHR ''h'' \<noteq> BACKSLASH" "CHR ''e'' \<noteq> BACKSLASH" "CHR ''l'' \<noteq> BACKSLASH"
    "CHR ''o'' \<noteq> BACKSLASH" "CHR ''a'' \<noteq> BACKSLASH" "CHR ''b'' \<noteq> BACKSLASH"
    "CHR ''h'' \<noteq> QUOTE" "CHR ''e'' \<noteq> QUOTE" "CHR ''l'' \<noteq> QUOTE"
    "CHR ''o'' \<noteq> QUOTE" "CHR ''a'' \<noteq> QUOTE" "CHR ''b'' \<noteq> QUOTE" "LF \<noteq> CR"
    by (simp_all add: QUOTE_def BACKSLASH_def LF_def CR_def)
  have 1: "unescape False ''hello'' = Some (''hello'', False)" using c by simp
  have 2: "unescape False (''a'' @ [BACKSLASH, LF] @ ''b'') = Some (''ab'', False)" using c by simp
  have 3: "unescape False (''a'' @ [BACKSLASH, CR, LF] @ ''b'') = Some (''ab'', False)" using c by simp
  have sp: "\<And>cs. stream_position (CLIInputStreamHook (text_stream cs)) = 0"
    by (simp add: CLIInputStreamHook_def)
  from readString_literal [OF _ 1, of "CLIInputStreamHook (text_stream ([QUOTE] @ ''hello'' @ [QUOTE]))" "[]" example_numlib]
  have a: "map_option fst (readNextToken example_numlib
       (CLIInputStreamHook (text_stream ([QUOTE] @ ''hello'' @ [QUOTE])))) =
     Some (Inr (mk_token Tok_String ''hello'' 0 7))"
    by (simp add: sp)
  from readString_literal [OF _ 2, of "CLIInputStreamHook (text_stream ([QUOTE] @ ''a'' @ [BACKSLASH, LF] @ ''b'' @ [QUOTE]))" "[]" example_numlib]
  have b: "map_option fst (readNextToken example_numlib
       (CLIInputStreamHook (text_stream ([QUOTE] @ ''a'' @ [BACKSLASH, LF] @ ''b'' @ [QUOTE])))) =
     Some (Inr (mk_token Tok_String ''ab'' 0 6))"
    by (simp add: sp)
  from readString_literal [OF _ 3, of "CLIInputStreamHook (text_stream ([QUOTE] @ ''a'' @ [BACKSLASH, CR, LF] @ ''b'' @ [QUOTE]))" "[]" example_numlib]
  have c: "map_option fst (readNextToken example_numlib
       (CLIInputStreamHook (text_stream ([QUOTE] @ ''a'' @ [BACKSLASH, CR, LF] @ ''b'' @ [QUOTE])))) =
     Some (Inr (mk_token Tok_String ''ab'' 0 7))"
    by (simp add: sp)
  from a b c show ?thesis by blast
qed

text \<open>
  The claim's reading of the escapes: a backslash escapes the one character after it.
  \<open>claimed_literal\<close> is the value and the number of characters up to and including the
  closing quote under that reading.
\<close>

fun claimed_literal :: "string \<Rightarrow> string \<times> nat" where
  "claimed_literal [] = ([], 0)"
| "claimed_literal [c] = (if c = BACKSLASH \<or> c = QUOTE then ([], 1) else ([c], 1))"
| "claimed_literal (c # d # cs) =
     (if c = BACKSLASH then
        (if d = CR \<or> d = LF then map_prod id (\<lambda>n. n + 2) (claimed_literal cs)
         else map_prod ((#) d) (\<lambda>n. n + 2) (claimed_literal cs))
      else if c = QUOTE then ([], 1)
      else map_prod ((#) c) Suc (claimed_literal (d # cs)))"

text \<open>
  On the literal made of a backslash, a carriage return, a quote, \<open>b\<close> and a quote, that
  reading ends the literal at the first quote, with the empty value and the end at offset
  4.  The lexer takes the first quote as escaped: the value is the quote and \<open>b\<close>, the end
  is at offset 6.
\<close>

theorem escaped_carriage_return_counterexample:
  "claimed_literal [BACKSLASH, CR, QUOTE, CHR ''b'', QUOTE] = ([], 3) \<and>
   map_option fst (readNextToken example_numlib
       (CLIInputStreamHook (text_stream [QUOTE, BACKSLASH, CR, QUOTE, CHR ''b'', QUOTE]))) =
     Some (Inr (mk_token Tok_String [QUOTE, CHR ''b''] 0 6))"
  by (simp add: lexer_eval)

lemma parseArgument_string:
  assumes p: "peekToken L s = Some (Inr t, s1)" and ty: "tok_type t = Tok_String"
  shows "parseArgument L s = Some (Inr (Arg_String (tok_value t)), s1\<lparr>peeked_token := None\<rparr>)"
  using ty nextToken_peeked [OF p]
  by (simp add: parseArgument_def then_do_def p ret_def)

text \<open>
  C10.  A string literal that the end of the input cuts short (no closing quote that is not
  escaped) is a String token all the same: its value is the text read, with the escapes
  resolved, and it ends where the input ends.  No error is raised, and \<open>parseArgument\<close>
  makes a String argument of a String token, whatever ended it.
\<close>

theorem unterminated_string_accepted:
  "(unread h = QUOTE # body \<and> unescape False body = Some (v, e) \<longrightarrow>
      readNextToken L h =
        Some (Inr (mk_token Tok_String v (stream_position h)
                     (stream_position h + int (length body) + 1)),
              hook_advance (length body + 1) h) \<and>
      unread (hook_advance (length body + 1) h) = []) \<and>
   (peekToken L s = Some (Inr t, s1) \<and> tok_type t = Tok_String \<longrightarrow>
      parseArgument L s = Some (Inr (Arg_String (tok_value t)), s1\<lparr>peeked_token := None\<rparr>))"
proof -
  have 1: "readNextToken L h =
        Some (Inr (mk_token Tok_String v (stream_position h)
                     (stream_position h + int (length body) + 1)),
              hook_advance (length body + 1) h) \<and>
      unread (hook_advance (length body + 1) h) = []"
    if a: "unread h = QUOTE # body \<and> unescape False body = Some (v, e)"
  proof -
    from a have u: "unread h = QUOTE # body" and ue: "unescape False body = Some (v, e)"
      by simp_all
    have n: "length body + 1 = Suc (length body)" by simp
    have "Suc (length body) \<le> length (unread h)" using u by simp
    from hook_advance_props [OF this] u have "unread (hook_advance (Suc (length body)) h) = []"
      by simp
    with literal_open [OF ue] show ?thesis
      unfolding n by (simp add: readNextToken_string [OF u] mk_token_def)
  qed
  have 2: "parseArgument L s = Some (Inr (Arg_String (tok_value t)), s1\<lparr>peeked_token := None\<rparr>)"
    if "peekToken L s = Some (Inr t, s1) \<and> tok_type t = Tok_String"
    using that parseArgument_string by blast
  from 1 2 show ?thesis by blast
qed

theorem unterminated_string_accepted_witness:
  "map_option fst (readNextToken example_numlib
       (CLIInputStreamHook (text_stream ([QUOTE] @ ''ab'' @ [BACKSLASH, LF] @ ''c'')))) =
     Some (Inr (mk_token Tok_String ''abc'' 0 6)) \<and>
   map_option fst (parseArgument example_numlib
       (CLIParser (text_stream ([QUOTE] @ ''ab'' @ [BACKSLASH, LF] @ ''c'')))) =
     Some (Inr (Arg_String ''abc'')) \<and>
   parse_text (''cmd '' @ [QUOTE] @ ''abc'') =
     Some (Inr \<lparr>name = ''cmd'', arguments = [Arg_String ''abc'']\<rparr>)"
proof -
  let ?h = "CLIInputStreamHook (text_stream ([QUOTE] @ ''ab'' @ [BACKSLASH, LF] @ ''c''))"
  let ?s = "CLIParser (text_stream ([QUOTE] @ ''ab'' @ [BACKSLASH, LF] @ ''c''))"
  have c: "CHR ''a'' \<noteq> BACKSLASH" "CHR ''b'' \<noteq> BACKSLASH" "CHR ''c'' \<noteq> BACKSLASH"
    "CHR ''a'' \<noteq> QUOTE" "CHR ''b'' \<noteq> QUOTE" "CHR ''c'' \<noteq> QUOTE" "LF \<noteq> CR"
    by (simp_all add: QUOTE_def BACKSLASH_def LF_def CR_def)
  have ue: "unescape False (''ab'' @ [BACKSLASH, LF] @ ''c'') = Some (''abc'', False)"
    using c by simp
  have u: "unread ?h = QUOTE # (''ab'' @ [BACKSLASH, LF] @ ''c'')" by simp
  have sp: "stream_position ?h = 0" by (simp add: CLIInputStreamHook_def)
  obtain s1 where p: "peekToken example_numlib ?s = Some (Inr (mk_token Tok_String ''abc'' 0 6), s1)"
    by (simp add: lexer_eval parser_eval)
  have ty: "tok_type (mk_token Tok_String ''abc'' 0 6) = Tok_String"
    and tv: "tok_value (mk_token Tok_String ''abc'' 0 6) = ''abc''"
    by (simp_all add: mk_token_def)
  note t = unterminated_string_accepted [of ?h "''ab'' @ [BACKSLASH, LF] @ ''c''" "''abc''" False
      example_numlib ?s "mk_token Tok_String ''abc'' 0 6" s1]
  from t u ue sp have a: "map_option fst (readNextToken example_numlib ?h) =
     Some (Inr (mk_token Tok_String ''abc'' 0 6))"
    by simp
  from t p ty tv have b: "map_option fst (parseArgument example_numlib ?s) =
     Some (Inr (Arg_String ''abc''))"
    by simp
  have "parse_text (''cmd '' @ [QUOTE] @ ''abc'') =
     Some (Inr \<lparr>name = ''cmd'', arguments = [Arg_String ''abc'']\<rparr>)"
    by (simp add: parse_text_def lexer_eval parser_eval)
  with a b show ?thesis by blast
qed

section \<open>Printing an integer and reading it back\<close>

lemma of_char_digit_char: "d < 10 \<Longrightarrow> (of_char (digit_char d) :: nat) = 48 + d"
  by (simp add: digit_char_def)

lemma isDigit_digit_char: "d < 10 \<Longrightarrow> isDigit (digit_char d)"
  by (simp add: isDigit_def of_char_digit_char)

lemma digit_val_digit_char: "d < 10 \<Longrightarrow> digit_val (digit_char d) = d"
  by (simp add: digit_val_def of_char_digit_char)

lemma digits_val_snoc: "digits_val (ds @ [c]) = 10 * digits_val ds + digit_val c"
  by (simp add: digits_val_def)

lemma nat_to_string_digits:
  "list_all isDigit (nat_to_string m) \<and> nat_to_string m \<noteq> [] \<and> digits_val (nat_to_string m) = m"
proof (induction m rule: nat_to_string.induct)
  case (1 n)
  show ?case
  proof (cases "n < 10")
    case True
    then show ?thesis
      by (simp add: nat_to_string.simps [of n] isDigit_digit_char digits_val_def digit_val_digit_char)
  next
    case False
    with 1 show ?thesis
      by (simp add: nat_to_string.simps [of n] isDigit_digit_char digits_val_snoc digit_val_digit_char)
  qed
qed

lemma isDigit_plain: "isDigit c \<Longrightarrow> \<not> isSpace c \<and> c \<noteq> CHR ''-'' \<and> c \<noteq> CHR ''+''"
  by (auto simp: isDigit_def isSpace_def)

lemma stoll_digits:
  assumes "list_all isDigit ds" "ds \<noteq> []"
  shows "stoll ds = (if in_int64 (int (digits_val ds)) then Some (int (digits_val ds)) else None)"
    and "stoll (CHR ''-'' # ds) =
           (if in_int64 (- int (digits_val ds)) then Some (- int (digits_val ds)) else None)"
proof -
  from assms obtain c cs where ds: "ds = c # cs" and c: "isDigit c" by (cases ds) auto
  have tw: "takeWhile isDigit ds = ds" using assms(1) by (simp add: list_all_iff)
  note p = isDigit_plain [OF c]
  have dw: "dropWhile isSpace ds = ds" using p by (simp add: ds)
  have hd: "hd ds \<noteq> CHR ''-''" "hd ds \<noteq> CHR ''+''" using p by (simp_all add: ds)
  show "stoll ds = (if in_int64 (int (digits_val ds)) then Some (int (digits_val ds)) else None)"
    unfolding stoll_def Let_def dw using hd assms(2) by (simp add: tw)
  have dw': "dropWhile isSpace (CHR ''-'' # ds) = CHR ''-'' # ds" by (simp add: isSpace_def)
  show "stoll (CHR ''-'' # ds) =
           (if in_int64 (- int (digits_val ds)) then Some (- int (digits_val ds)) else None)"
    unfolding stoll_def Let_def dw' using assms(2) by (simp add: tw)
qed

lemma stoll_to_string: "in_int64 n \<Longrightarrow> stoll (to_string n) = Some n"
proof (cases "n < 0")
  case True
  assume "in_int64 n"
  with True nat_to_string_digits [of "nat (- n)"] stoll_digits(2) [of "nat_to_string (nat (- n))"]
  show ?thesis by (simp add: to_string_def)
next
  case False
  assume "in_int64 n"
  with False nat_to_string_digits [of "nat n"] stoll_digits(1) [of "nat_to_string (nat n)"]
  show ?thesis by (simp add: to_string_def)
qed

section \<open>Lists of numbers\<close>

text \<open>
  A number as the lexer knows it: an integer of 64 bits, or a float with its printed text.
  A token is that number when its type and its value say so.
\<close>

datatype number = Integer_number int | Float_number string

fun is_number :: "token \<Rightarrow> number \<Rightarrow> bool" where
  "is_number t (Integer_number n) =
     (tok_type t = Tok_Integer \<and> tok_value t = to_string n \<and> in_int64 n)"
| "is_number t (Float_number printed) = (tok_type t = Tok_Float \<and> tok_value t = printed)"

text \<open>
  \<open>reads_list L s xs s'\<close>: the tokens that \<open>nextToken\<close> returns from \<open>s\<close> are the numbers
  \<open>xs\<close> with a comma between each two, and the last of them leaves the state \<open>s'\<close>.
\<close>

fun reads_list :: "numlib \<Rightarrow> parser \<Rightarrow> number list \<Rightarrow> parser \<Rightarrow> bool" where
  "reads_list L s [] s' = False"
| "reads_list L s [x] s' = (\<exists>t. nextToken L s = Some (Inr t, s') \<and> is_number t x)"
| "reads_list L s (x # y # ys) s' =
     (\<exists>t s1 c s2. nextToken L s = Some (Inr t, s1) \<and> is_number t x \<and>
        nextToken L s1 = Some (Inr c, s2) \<and> tok_type c = Tok_Comma \<and>
        reads_list L s2 (y # ys) s')"

text \<open>The promotion: integers stay integers unless a float is among the numbers.\<close>

fun the_integers :: "number list \<Rightarrow> int list option" where
  "the_integers [] = Some []"
| "the_integers (Integer_number n # xs) = map_option ((#) n) (the_integers xs)"
| "the_integers (Float_number printed # xs) = None"

fun as_double :: "number \<Rightarrow> double" where
  "as_double (Integer_number n) = Double_of_int64 n"
| "as_double (Float_number printed) = Stod printed"

definition promoted :: "number list \<Rightarrow> argument" where
  "promoted xs =
     (case the_integers xs of
        Some ns \<Rightarrow> Arg_IntegerVector ns
      | None \<Rightarrow> Arg_FloatVector (map as_double xs))"

lemma next_via_peek:
  assumes "nextToken L s = Some (Inr t, s')"
  obtains sp where "peekToken L s = Some (Inr t, sp)" "nextToken L sp = Some (Inr t, s')"
proof (cases "peeked_token s")
  case (Some t0)
  with assms have "t0 = t" "s' = s\<lparr>peeked_token := None\<rparr>" by (simp_all add: nextToken_def ret_def)
  with Some assms have "peekToken L s = Some (Inr t, s)" by (simp add: peekToken_def ret_def)
  with assms that show ?thesis by blast
next
  case None
  with assms obtain h' where r: "readNextToken L (stream_hook s) = Some (Inr t, h')"
    and s': "s' = s\<lparr>stream_hook := h'\<rparr>"
    by (auto simp: nextToken_def lift_lexer_def split: option.splits)
  let ?sp = "s\<lparr>stream_hook := h', peeked_token := Some t\<rparr>"
  from None r have p: "peekToken L s = Some (Inr t, ?sp)"
    by (simp add: peekToken_def lift_lexer_def then_do_def ret_def)
  have "?sp\<lparr>peeked_token := None\<rparr> = s'" using None s' by (cases s) simp
  then have "nextToken L ?sp = Some (Inr t, s')" by (simp add: nextToken_def ret_def)
  with p that show ?thesis by blast
qed

text \<open>A turn of the loop of \<open>parseNumberList\<close>, given the token in the lookahead.\<close>

lemma parseNumberList_step_peeked:
  assumes p: "peekToken L s = Some (Inr pk, s1)"
  shows "parseNumberList_step L v s =
     (if tok_type pk = Tok_Integer \<or> tok_type pk = Tok_Float then
        (if \<not> comma v then
           (if length (tokens v) = 1
            then Some (Inl (UnexpectedTokenType Tok_Comma pk), s1\<lparr>peeked_token := None\<rparr>)
            else returnVector L v s1)
         else Some (Inr (Inl (v\<lparr>comma := False, first_number := False,
                              tokens := tokens v @ [pk],
                              integer_vector := (integer_vector v \<and> tok_type pk = Tok_Integer)\<rparr>)),
                    s1\<lparr>peeked_token := None\<rparr>))
      else if tok_type pk = Tok_Comma then
        (if comma v
         then Some (Inl (UnexpectedTokenText ''number'' pk), s1\<lparr>peeked_token := None\<rparr>)
         else Some (Inr (Inl (v\<lparr>comma := True\<rparr>)), s1\<lparr>peeked_token := None\<rparr>))
      else if first_number v \<or> comma v
        then Some (Inl (UnexpectedTokenText ''number'' pk), s1\<lparr>peeked_token := None\<rparr>)
        else returnVector L v s1)"
  using nextToken_peeked [OF p]
  by (cases "tok_type pk")
     (simp_all add: parseNumberList_step_def then_do_def p ret_def throw_def)

text \<open>The tokens collected, as numbers.\<close>

lemma integerElements_numbers:
  "list_all2 is_number ts xs \<Longrightarrow> the_integers xs = Some ns \<Longrightarrow> integerElements L ts = Inr ns"
proof (induction ts xs arbitrary: ns rule: list_all2_induct)
  case Nil
  then show ?case by simp
next
  case (Cons t ts x xs)
  then show ?case by (cases x) (auto simp: stoll_to_string)
qed

lemma floatElements_numbers:
  "list_all2 is_number ts xs \<Longrightarrow> floatElements ts = Inr (map as_double xs)"
proof (induction ts xs rule: list_all2_induct)
  case Nil
  then show ?case by simp
next
  case (Cons t ts x xs)
  then show ?case by (cases x) (auto simp: stoll_to_string)
qed

lemma returnVector_numbers:
  assumes "list_all2 is_number (tokens v) xs" and "integer_vector v = (the_integers xs \<noteq> None)"
  shows "returnVector L v s = Some (Inr (Inr (promoted xs)), s)"
proof (cases "the_integers xs")
  case None
  with assms floatElements_numbers [OF assms(1)] show ?thesis
    by (simp add: returnVector_def parseFloatVector_def promoted_def ret_def)
next
  case (Some ns)
  with assms integerElements_numbers [OF assms(1) Some, of L] show ?thesis
    by (simp add: returnVector_def parseIntegerVector_def promoted_def ret_def)
qed

lemma the_integers_snoc:
  "the_integers (xs @ [Integer_number n]) = map_option (\<lambda>ns. ns @ [n]) (the_integers xs)"
  "the_integers (xs @ [Float_number printed]) = None"
  by (induction xs rule: the_integers.induct) (simp_all add: option.map_comp comp_def)

lemma integer_vector_snoc:
  assumes "is_number tk x" and "iv = (the_integers ys \<noteq> None)"
  shows "(iv \<and> tok_type tk = Tok_Integer) = (the_integers (ys @ [x]) \<noteq> None)"
  using assms by (cases x) (auto simp: the_integers_snoc)

lemma is_number_type:
  "is_number t x \<Longrightarrow> tok_type t = Tok_Integer \<or> tok_type t = Tok_Float"
  by (cases x) auto

lemma loop_take_number:
  assumes n: "nextToken L s = Some (Inr tk, s1)" and x: "is_number tk x" and c: "comma v"
  shows "parseNumberList_loop L v s =
     parseNumberList_loop L
       (v\<lparr>comma := False, first_number := False, tokens := tokens v @ [tk],
          integer_vector := (integer_vector v \<and> tok_type tk = Tok_Integer)\<rparr>) s1"
proof -
  from n obtain sp where p: "peekToken L s = Some (Inr tk, sp)"
    and n': "nextToken L sp = Some (Inr tk, s1)" by (rule next_via_peek)
  from nextToken_peeked [OF p] n' have s1: "s1 = sp\<lparr>peeked_token := None\<rparr>" by simp
  from is_number_type [OF x] c show ?thesis
    by (intro parseNumberList_loop_continue) (simp add: parseNumberList_step_peeked [OF p] s1)
qed

lemma loop_take_comma:
  assumes n: "nextToken L s = Some (Inr c, s1)" and ty: "tok_type c = Tok_Comma" and c: "\<not> comma v"
  shows "parseNumberList_loop L v s = parseNumberList_loop L (v\<lparr>comma := True\<rparr>) s1"
proof -
  from n obtain sp where p: "peekToken L s = Some (Inr c, sp)"
    and n': "nextToken L sp = Some (Inr c, s1)" by (rule next_via_peek)
  from nextToken_peeked [OF p] n' have s1: "s1 = sp\<lparr>peeked_token := None\<rparr>" by simp
  from ty c show ?thesis
    by (intro parseNumberList_loop_continue) (simp add: parseNumberList_step_peeked [OF p] s1)
qed

text \<open>
  What may follow the numbers that \<open>parseNumberList\<close> has collected, \<open>n\<close> of them, for the
  list to end there: no comma, and a number only after two numbers at least.
\<close>

definition ends_after :: "nat \<Rightarrow> token \<Rightarrow> bool" where
  "ends_after n t =
     (tok_type t \<noteq> Tok_Comma \<and> (tok_type t = Tok_Integer \<or> tok_type t = Tok_Float \<longrightarrow> 2 \<le> n))"

lemma loop_end:
  assumes p: "peekToken L s = Some (Inr t, s1)"
    and e: "ends_after (length xs) t"
    and v: "\<not> comma v" "\<not> first_number v"
    and ts: "list_all2 is_number (tokens v) xs"
    and iv: "integer_vector v = (the_integers xs \<noteq> None)"
  shows "parseNumberList_loop L v s = Some (Inr (promoted xs), s1)"
proof -
  from ts have "length (tokens v) = length xs" by (rule list_all2_lengthD)
  with e v show ?thesis
    by (intro parseNumberList_loop_return)
       (auto simp: ends_after_def parseNumberList_step_peeked [OF p] returnVector_numbers [OF ts iv])
qed

lemma parseNumberList_loop_numbers:
  assumes "reads_list L s xs s1"
    and "peekToken L s1 = Some (Inr t, s2)"
    and "list_all2 is_number (tokens v) ys"
    and "integer_vector v = (the_integers ys \<noteq> None)"
    and "comma v"
    and "ends_after (length ys + length xs) t"
  shows "parseNumberList_loop L v s = Some (Inr (promoted (ys @ xs)), s2)"
  using assms
proof (induction L s xs s1 arbitrary: v ys rule: reads_list.induct)
  case (1 L s s')
  then show ?case by simp
next
  case (2 L s x s')
  from "2.prems"(1) obtain tk where n: "nextToken L s = Some (Inr tk, s')" and x: "is_number tk x"
    by auto
  let ?v = "v\<lparr>comma := False, first_number := False, tokens := tokens v @ [tk],
          integer_vector := (integer_vector v \<and> tok_type tk = Tok_Integer)\<rparr>"
  have ts: "list_all2 is_number (tokens ?v) (ys @ [x])"
    using "2.prems"(3) x by (simp add: list_all2_appendI)
  have iv: "integer_vector ?v = (the_integers (ys @ [x]) \<noteq> None)"
    using integer_vector_snoc [OF x "2.prems"(4)] by simp
  have "parseNumberList_loop L v s = parseNumberList_loop L ?v s'"
    using n x "2.prems"(5) by (rule loop_take_number)
  also have "\<dots> = Some (Inr (promoted (ys @ [x])), s2)"
    using "2.prems"(2) _ _ _ ts iv by (rule loop_end) (use "2.prems"(6) in simp_all)
  finally show ?case .
next
  case (3 L s x y zs s')
  from "3.prems"(1) obtain tk sa c sb where n: "nextToken L s = Some (Inr tk, sa)"
    and x: "is_number tk x" and nc: "nextToken L sa = Some (Inr c, sb)"
    and c: "tok_type c = Tok_Comma" and r: "reads_list L sb (y # zs) s'"
    by auto
  let ?v = "v\<lparr>comma := False, first_number := False, tokens := tokens v @ [tk],
          integer_vector := (integer_vector v \<and> tok_type tk = Tok_Integer)\<rparr>"
  have ts: "list_all2 is_number (tokens (?v\<lparr>comma := True\<rparr>)) (ys @ [x])"
    using "3.prems"(3) x by (simp add: list_all2_appendI)
  have iv: "integer_vector (?v\<lparr>comma := True\<rparr>) = (the_integers (ys @ [x]) \<noteq> None)"
    using integer_vector_snoc [OF x "3.prems"(4)] by simp
  have "parseNumberList_loop L v s = parseNumberList_loop L ?v sa"
    using n x "3.prems"(5) by (rule loop_take_number)
  also have "\<dots> = parseNumberList_loop L (?v\<lparr>comma := True\<rparr>) sb"
    using nc c by (rule loop_take_comma) simp
  also have "\<dots> = Some (Inr (promoted ((ys @ [x]) @ y # zs)), s2)"
    using r "3.prems"(2) ts iv by (rule "3.IH") (use "3.prems"(6) in simp_all)
  finally show ?case by simp
qed


lemma the_integers_doubles:
  "the_integers xs = Some ns \<Longrightarrow> map as_double xs = map Double_of_int64 ns"
  by (induction xs arbitrary: ns rule: the_integers.induct) auto

lemma insertInteger_promoted:
  assumes "is_number tk (Integer_number n)"
  shows "insertInteger tk (promoted xs) s = Some (Inr (promoted (Integer_number n # xs)), s)"
  using assms
  by (cases "the_integers xs")
     (simp_all add: insertInteger_def promoted_def stoll_to_string ret_def)

lemma insertFloat_promoted:
  assumes "is_number tk (Float_number printed)"
  shows "insertFloat tk (promoted xs) s = Some (Inr (promoted (Float_number printed # xs)), s)"
  using assms
  by (cases "the_integers xs")
     (simp_all add: insertFloat_def promoted_def ret_def the_integers_doubles)

lemma parseNumberList_numbers:
  assumes "reads_list L s xs s1"
    and "peekToken L s1 = Some (Inr t, s2)"
    and "ends_after (length xs) t"
  shows "parseNumberList L s = Some (Inr (promoted xs), s2)"
  unfolding parseNumberList_def
  using parseNumberList_loop_numbers [OF assms(1,2), of _ "[]"] assms(3)
  by simp

lemma parseArgument_bare_list:
  assumes r: "reads_list L s (x # y # zs) s1"
    and p: "peekToken L s1 = Some (Inr t, s2)"
    and ty: "ends_after (length (y # zs)) t"
  shows "parseArgument L s = Some (Inr (promoted (x # y # zs)), s2)"
proof -
  from r obtain tk sa c sb where n: "nextToken L s = Some (Inr tk, sa)"
    and x: "is_number tk x" and nc: "nextToken L sa = Some (Inr c, sb)"
    and c: "tok_type c = Tok_Comma" and rest: "reads_list L sb (y # zs) s1"
    by auto
  from n obtain sp where pk: "peekToken L s = Some (Inr tk, sp)"
    and n': "nextToken L sp = Some (Inr tk, sa)" by (rule next_via_peek)
  from nc obtain spc where pc: "peekToken L sa = Some (Inr c, spc)"
    and nc': "nextToken L spc = Some (Inr c, sb)" by (rule next_via_peek)
  note list = parseNumberList_numbers [OF rest p ty]
  have nov: "numberOrVector L ins scalar sa = ins (promoted (y # zs)) s2" for ins scalar
    using c by (simp add: numberOrVector_def then_do_def pc nc' list)
  show ?thesis
  proof (cases x)
    case (Integer_number i)
    with x have "tok_type tk = Tok_Integer" by simp
    then show ?thesis
      using x Integer_number
      by (simp add: parseArgument_def then_do_def pk n' nov insertInteger_promoted)
  next
    case (Float_number printed)
    with x have "tok_type tk = Tok_Float" by simp
    then show ?thesis
      using x Float_number
      by (simp add: parseArgument_def then_do_def pk n' nov insertFloat_promoted)
  qed
qed

lemma parseArgument_bracketed_list:
  assumes n: "nextToken L s = Some (Inr lbr, s0)"
    and r: "reads_list L s0 xs s1"
    and nc: "nextToken L s1 = Some (Inr rbr, s2)"
    and b: "tok_type lbr = Tok_LeftParen \<and> tok_type rbr = Tok_RightParen \<or>
            tok_type lbr = Tok_LeftBracket \<and> tok_type rbr = Tok_RightBracket"
  shows "parseArgument L s = Some (Inr (promoted xs), s2)"
proof -
  from n obtain sp where pk: "peekToken L s = Some (Inr lbr, sp)"
    and n': "nextToken L sp = Some (Inr lbr, s0)" by (rule next_via_peek)
  from nc obtain spc where pc: "peekToken L s1 = Some (Inr rbr, spc)"
    and nc': "nextToken L spc = Some (Inr rbr, s2)" by (rule next_via_peek)
  from b have ty: "ends_after (length xs) rbr" by (auto simp: ends_after_def)
  note list = parseNumberList_numbers [OF r pc ty]
  note again = peekToken_again [OF pk]
  from b show ?thesis
    by (auto simp: parseArgument_def parseVector_def then_do_def pk again n' list nc'
        expectToken_def ret_def)
qed

text \<open>
  What may follow a list without brackets for the list to end there: no comma, and a
  number only when the list has three numbers at least (the leading one, read by
  \<open>parseArgument\<close>, and two that \<open>parseNumberList\<close> collected).
\<close>

definition ends_list :: "number list \<Rightarrow> token \<Rightarrow> bool" where
  "ends_list xs t =
     (tok_type t \<noteq> Tok_Comma \<and>
      (tok_type t = Tok_Integer \<or> tok_type t = Tok_Float \<longrightarrow> 3 \<le> length xs))"

definition brackets :: "token \<Rightarrow> token \<Rightarrow> bool" where
  "brackets lbr rbr =
     (tok_type lbr = Tok_LeftParen \<and> tok_type rbr = Tok_RightParen \<or>
      tok_type lbr = Tok_LeftBracket \<and> tok_type rbr = Tok_RightBracket)"

text \<open>
  C1.  A list of numbers separated by commas, parsed as one argument, is an IntegerVector
  of the integers unless one of the numbers is a float; then it is a FloatVector, in which
  every integer (the leading one as well) is converted to a double.  This holds for a list
  without brackets, of two numbers at least, followed by a token that is not a comma: any
  token that is not a number, or a number (which stays in the lookahead) when the list has
  three numbers at least; and for a list between parentheses or square brackets.  These
  are all the ways by which \<open>parseNumberList\<close> returns.
\<close>

theorem vector_promotion:
  "(reads_list L s xs s1 \<and> 2 \<le> length xs \<and> peekToken L s1 = Some (Inr t, s2) \<and> ends_list xs t \<longrightarrow>
      parseArgument L s = Some (Inr (promoted xs), s2)) \<and>
   (nextToken L s = Some (Inr lbr, s0) \<and> reads_list L s0 xs s1 \<and>
    nextToken L s1 = Some (Inr rbr, s2) \<and> brackets lbr rbr \<longrightarrow>
      parseArgument L s = Some (Inr (promoted xs), s2))"
proof -
  have 1: "parseArgument L s = Some (Inr (promoted xs), s2)"
    if a: "reads_list L s xs s1 \<and> 2 \<le> length xs \<and> peekToken L s1 = Some (Inr t, s2) \<and> ends_list xs t"
  proof -
    from a obtain x y zs where xs: "xs = x # y # zs"
      by (cases xs; cases "tl xs") auto
    from a have "ends_after (length (y # zs)) t" by (auto simp: xs ends_list_def ends_after_def)
    with a show ?thesis
      unfolding xs by (intro parseArgument_bare_list [of L s x y zs s1 t]) simp_all
  qed
  have 2: "parseArgument L s = Some (Inr (promoted xs), s2)"
    if "nextToken L s = Some (Inr lbr, s0) \<and> reads_list L s0 xs s1 \<and>
        nextToken L s1 = Some (Inr rbr, s2) \<and> brackets lbr rbr"
    using that unfolding brackets_def
    by (intro parseArgument_bracketed_list [of L s lbr s0 xs s1 rbr]) simp_all
  from 1 2 show ?thesis by blast
qed

text \<open>
  The lists \<open>1,2,3\<close>, \<open>1,2.5,3\<close> and \<open>2.0,1\<close>, the list \<open>(1,2.5)\<close>, and the list \<open>1,2.5,3\<close>
  that the number \<open>4\<close> follows.  In the vectors of doubles,
  \<open>Double_of_int64 1\<close> is the integer 1 converted, and \<open>Stod ''2.500000''\<close> is the double
  that \<open>std::stod\<close> reads from the printed float.
\<close>

theorem vector_promotion_witness:
  "map_option fst (parseArgument example_numlib (CLIParser (text_stream ''1,2,3''))) =
     Some (Inr (Arg_IntegerVector [1, 2, 3])) \<and>
   map_option fst (parseArgument example_numlib (CLIParser (text_stream ''1,2.5,3''))) =
     Some (Inr (Arg_FloatVector [Double_of_int64 1, Stod ''2.500000'', Double_of_int64 3])) \<and>
   map_option fst (parseArgument example_numlib (CLIParser (text_stream ''2.0,1''))) =
     Some (Inr (Arg_FloatVector [Stod ''2.000000'', Double_of_int64 1])) \<and>
   map_option fst (parseArgument example_numlib (CLIParser (text_stream ''(1,2.5)''))) =
     Some (Inr (Arg_FloatVector [Double_of_int64 1, Stod ''2.500000''])) \<and>
   map_option fst (parseArgument example_numlib (CLIParser (text_stream ''1,2.5,3 4''))) =
     Some (Inr (Arg_FloatVector [Double_of_int64 1, Stod ''2.500000'', Double_of_int64 3]))"
proof -
  let ?L = example_numlib
  have fl: "istream_float ?L ''2.5'' = Some ''2.500000''" "istream_float ?L ''2.0'' = Some ''2.000000''"
    by (simp_all add: example_numlib_def)
  obtain a1 where a: "reads_list ?L (CLIParser (text_stream ''1,2,3''))
      [Integer_number 1, Integer_number 2, Integer_number 3] a1"
    and "\<exists>a2. peekToken ?L a1 = Some (Inr (mk_token Tok_EndOfFile [] 5 5), a2)"
    by (simp add: lexer_eval parser_eval)
  then obtain a2 where pa: "peekToken ?L a1 = Some (Inr (mk_token Tok_EndOfFile [] 5 5), a2)"
    by blast
  have e: "\<And>xs b e. ends_list xs (mk_token Tok_EndOfFile [] b e)"
    by (simp add: ends_list_def mk_token_def)
  from vector_promotion [of ?L "CLIParser (text_stream ''1,2,3'')"
      "[Integer_number 1, Integer_number 2, Integer_number 3]" a1 "mk_token Tok_EndOfFile [] 5 5" a2] a pa e
  have 1: "map_option fst (parseArgument ?L (CLIParser (text_stream ''1,2,3''))) =
     Some (Inr (Arg_IntegerVector [1, 2, 3]))"
    by (simp add: promoted_def)
  obtain b1 where b: "reads_list ?L (CLIParser (text_stream ''1,2.5,3''))
      [Integer_number 1, Float_number ''2.500000'', Integer_number 3] b1"
    and "\<exists>b2. peekToken ?L b1 = Some (Inr (mk_token Tok_EndOfFile [] 7 7), b2)"
    by (simp add: lexer_eval parser_eval fl)
  then obtain b2 where pb: "peekToken ?L b1 = Some (Inr (mk_token Tok_EndOfFile [] 7 7), b2)"
    by blast
  from vector_promotion [of ?L "CLIParser (text_stream ''1,2.5,3'')"
      "[Integer_number 1, Float_number ''2.500000'', Integer_number 3]" b1 "mk_token Tok_EndOfFile [] 7 7" b2] b pb e
  have 2: "map_option fst (parseArgument ?L (CLIParser (text_stream ''1,2.5,3''))) =
     Some (Inr (Arg_FloatVector [Double_of_int64 1, Stod ''2.500000'', Double_of_int64 3]))"
    by (simp add: promoted_def)
  obtain c1 where c: "reads_list ?L (CLIParser (text_stream ''2.0,1''))
      [Float_number ''2.000000'', Integer_number 1] c1"
    and "\<exists>c2. peekToken ?L c1 = Some (Inr (mk_token Tok_EndOfFile [] 5 5), c2)"
    by (simp add: lexer_eval parser_eval fl)
  then obtain c2 where pc: "peekToken ?L c1 = Some (Inr (mk_token Tok_EndOfFile [] 5 5), c2)"
    by blast
  from vector_promotion [of ?L "CLIParser (text_stream ''2.0,1'')"
      "[Float_number ''2.000000'', Integer_number 1]" c1 "mk_token Tok_EndOfFile [] 5 5" c2] c pc e
  have 3: "map_option fst (parseArgument ?L (CLIParser (text_stream ''2.0,1''))) =
     Some (Inr (Arg_FloatVector [Stod ''2.000000'', Double_of_int64 1]))"
    by (simp add: promoted_def)
  obtain d0 d1 d2 where d: "nextToken ?L (CLIParser (text_stream ''(1,2.5)'')) =
      Some (Inr (mk_token Tok_LeftParen ''('' 0 1), d0)"
    and dr: "reads_list ?L d0 [Integer_number 1, Float_number ''2.500000''] d1"
    and dn: "nextToken ?L d1 = Some (Inr (mk_token Tok_RightParen '')'' 6 7), d2)"
    by (simp add: lexer_eval parser_eval fl)
  have br: "brackets (mk_token Tok_LeftParen ''('' 0 1) (mk_token Tok_RightParen '')'' 6 7)"
    by (simp add: brackets_def mk_token_def)
  from vector_promotion [where L = ?L and s = "CLIParser (text_stream ''(1,2.5)'')"
      and lbr = "mk_token Tok_LeftParen ''('' 0 1" and ?s0.0 = d0
      and xs = "[Integer_number 1, Float_number ''2.500000'']" and ?s1.0 = d1
      and rbr = "mk_token Tok_RightParen '')'' 6 7" and ?s2.0 = d2] d dr dn br
  have 4: "map_option fst (parseArgument ?L (CLIParser (text_stream ''(1,2.5)''))) =
     Some (Inr (Arg_FloatVector [Double_of_int64 1, Stod ''2.500000'']))"
    by (simp add: promoted_def)
  obtain f1 where f: "reads_list ?L (CLIParser (text_stream ''1,2.5,3 4''))
      [Integer_number 1, Float_number ''2.500000'', Integer_number 3] f1"
    and "\<exists>f2. peekToken ?L f1 = Some (Inr (mk_token Tok_Integer ''4'' 8 9), f2)"
    by (simp add: lexer_eval parser_eval fl)
  then obtain f2 where pf: "peekToken ?L f1 = Some (Inr (mk_token Tok_Integer ''4'' 8 9), f2)"
    by blast
  have ef: "ends_list [Integer_number 1, Float_number ''2.500000'', Integer_number 3]
      (mk_token Tok_Integer ''4'' 8 9)"
    by (simp add: ends_list_def mk_token_def)
  from vector_promotion [of ?L "CLIParser (text_stream ''1,2.5,3 4'')"
      "[Integer_number 1, Float_number ''2.500000'', Integer_number 3]" f1
      "mk_token Tok_Integer ''4'' 8 9" f2] f pf ef
  have 5: "map_option fst (parseArgument ?L (CLIParser (text_stream ''1,2.5,3 4''))) =
     Some (Inr (Arg_FloatVector [Double_of_int64 1, Stod ''2.500000'', Double_of_int64 3]))"
    by (simp add: promoted_def)
  from 1 2 3 4 5 show ?thesis by blast
qed

section \<open>A number after a list without brackets\<close>

definition number_token :: "token \<Rightarrow> bool" where
  "number_token t = (tok_type t = Tok_Integer \<or> tok_type t = Tok_Float)"

lemma parseNumberList_loop_pair:
  assumes r: "reads_list L s [y] s1"
    and p: "peekToken L s1 = Some (Inr t, s2)"
    and ty: "number_token t"
  shows "parseNumberList L s =
     Some (Inl (UnexpectedTokenType Tok_Comma t), s2\<lparr>peeked_token := None\<rparr>)"
proof -
  from r obtain tk where n: "nextToken L s = Some (Inr tk, s1)" and y: "is_number tk y"
    by auto
  let ?ini = "\<lparr>comma = True, first_number = True, tokens = [], integer_vector = True\<rparr>"
  let ?v = "?ini\<lparr>comma := False, first_number := False, tokens := tokens ?ini @ [tk],
          integer_vector := (integer_vector ?ini \<and> tok_type tk = Tok_Integer)\<rparr>"
  have "parseNumberList_loop L ?ini s = parseNumberList_loop L ?v s1"
    using n y by (rule loop_take_number) simp
  also have "\<dots> = Some (Inl (UnexpectedTokenType Tok_Comma t), s2\<lparr>peeked_token := None\<rparr>)"
    using ty
    by (intro parseNumberList_loop_throw)
       (simp add: parseNumberList_step_peeked [OF p] number_token_def)
  finally show ?thesis by (simp add: parseNumberList_def)
qed

lemma parseArgument_bare_pair:
  assumes r: "reads_list L s [x, y] s1"
    and p: "peekToken L s1 = Some (Inr t, s2)"
    and ty: "number_token t"
  shows "parseArgument L s =
     Some (Inl (UnexpectedTokenType Tok_Comma t), s2\<lparr>peeked_token := None\<rparr>)"
proof -
  from r obtain tk sa c sb where n: "nextToken L s = Some (Inr tk, sa)"
    and x: "is_number tk x" and nc: "nextToken L sa = Some (Inr c, sb)"
    and c: "tok_type c = Tok_Comma" and rest: "reads_list L sb [y] s1"
    by auto
  from n obtain sp where pk: "peekToken L s = Some (Inr tk, sp)"
    and n': "nextToken L sp = Some (Inr tk, sa)" by (rule next_via_peek)
  from nc obtain spc where pc: "peekToken L sa = Some (Inr c, spc)"
    and nc': "nextToken L spc = Some (Inr c, sb)" by (rule next_via_peek)
  note list = parseNumberList_loop_pair [OF rest p ty]
  have nov: "numberOrVector L ins scalar sa =
      Some (Inl (UnexpectedTokenType Tok_Comma t), s2\<lparr>peeked_token := None\<rparr>)" for ins scalar
    using c by (simp add: numberOrVector_def then_do_def pc nc' list)
  from is_number_type [OF x] show ?thesis
    by (auto simp: parseArgument_def then_do_def pk n' nov)
qed

text \<open>
  C2.  A number where a comma was expected should end a list that holds two numbers at
  least, and start the next argument.  After a list without brackets of three numbers or
  more it does: \<open>parseArgument\<close> returns the vector and the number stays in the lookahead.
  After a list without brackets of exactly two numbers it does not: \<open>parseArgument\<close> raises
  the error that a comma was expected.  The test that decides is on the numbers that
  \<open>parseNumberList\<close> has collected in \<open>tokens\<close> (two at least: the list ends; exactly one:
  the error), and the leading number of a list without brackets, which \<open>parseArgument\<close>
  read before, is not among them.  A comma where a number was expected is an error in every
  case.  Here \<open>pk\<close> is the token in the lookahead at the state \<open>s\<close>; for the last two parts
  \<open>s\<close> is the state in which the list \<open>xs\<close> read from \<open>s0\<close> has left the parser.
\<close>

theorem juxtaposed_numbers:
  assumes "peekToken L s = Some (Inr pk, s1)"
  shows "(number_token pk \<and> \<not> comma v \<and> 2 \<le> length (tokens v) \<longrightarrow>
            peeked_token s1 = Some pk \<and>
            parseNumberList_loop L v s =
              (case (if integer_vector v then parseIntegerVector L (tokens v)
                     else parseFloatVector (tokens v)) of
                 Inl e \<Rightarrow> Some (Inl e, s1)
               | Inr arg \<Rightarrow> Some (Inr arg, s1))) \<and>
         (number_token pk \<and> \<not> comma v \<and> length (tokens v) = 1 \<longrightarrow>
            parseNumberList_loop L v s =
              Some (Inl (UnexpectedTokenType Tok_Comma pk), s1\<lparr>peeked_token := None\<rparr>)) \<and>
         (tok_type pk = Tok_Comma \<and> comma v \<longrightarrow>
            parseNumberList_loop L v s =
              Some (Inl (UnexpectedTokenText ''number'' pk), s1\<lparr>peeked_token := None\<rparr>)) \<and>
         (number_token pk \<and> reads_list L s0 xs s \<and> 3 \<le> length xs \<longrightarrow>
            peeked_token s1 = Some pk \<and>
            parseArgument L s0 = Some (Inr (promoted xs), s1)) \<and>
         (number_token pk \<and> reads_list L s0 xs s \<and> length xs = 2 \<longrightarrow>
            parseArgument L s0 =
              Some (Inl (UnexpectedTokenType Tok_Comma pk), s1\<lparr>peeked_token := None\<rparr>))"
proof -
  note fn = parseNumberList_juxtaposed [OF assms, of v, unfolded number_token_def [symmetric]]
  have slot: "peeked_token s1 = Some pk" using peekToken_slot [OF assms] by simp
  have 4: "parseArgument L s0 = Some (Inr (promoted xs), s1)"
    if a: "number_token pk \<and> reads_list L s0 xs s \<and> 3 \<le> length xs"
  proof -
    from a obtain x y zs where xs: "xs = x # y # zs"
      by (cases xs; cases "tl xs") auto
    from a have "ends_after (length (y # zs)) pk"
      by (auto simp: xs ends_after_def number_token_def)
    with a assms show ?thesis
      unfolding xs by (intro parseArgument_bare_list [of L s0 x y zs s pk]) simp_all
  qed
  have 5: "parseArgument L s0 =
      Some (Inl (UnexpectedTokenType Tok_Comma pk), s1\<lparr>peeked_token := None\<rparr>)"
    if a: "number_token pk \<and> reads_list L s0 xs s \<and> length xs = 2"
  proof -
    from a obtain x y where xs: "xs = [x, y]"
      by (cases xs; cases "tl xs") auto
    from a assms show ?thesis
      unfolding xs by (intro parseArgument_bare_pair [of L s0 x y s pk]) simp_all
  qed
  from fn slot 4 5 show ?thesis by blast
qed

text \<open>
  The loop of \<open>parseNumberList\<close> before the number \<open>3\<close> with two numbers and with one number
  collected, and before a comma after a comma; the lists \<open>1,2,3\<close> and \<open>1,2\<close> without
  brackets, each before another number; and the two statements as a whole: in the first
  the number \<open>4\<close> is the second argument, the second is an error at the number \<open>3\<close>.
\<close>

theorem juxtaposed_numbers_witness:
  "map_option fst
     (parseNumberList_loop example_numlib
        \<lparr>comma = False, first_number = False,
         tokens = [mk_token Tok_Integer ''1'' 0 1, mk_token Tok_Integer ''2'' 2 3],
         integer_vector = True\<rparr>
        (CLIParser (text_stream ''3''))) =
     Some (Inr (Arg_IntegerVector [1, 2])) \<and>
   map_option fst
     (parseNumberList_loop example_numlib
        \<lparr>comma = False, first_number = False,
         tokens = [mk_token Tok_Integer ''1'' 0 1], integer_vector = True\<rparr>
        (CLIParser (text_stream ''3''))) =
     Some (Inl (UnexpectedTokenType Tok_Comma (mk_token Tok_Integer ''3'' 0 1))) \<and>
   map_option fst
     (parseNumberList_loop example_numlib
        \<lparr>comma = True, first_number = False,
         tokens = [mk_token Tok_Integer ''1'' 0 1], integer_vector = True\<rparr>
        (CLIParser (text_stream '',''))) =
     Some (Inl (UnexpectedTokenText ''number'' (mk_token Tok_Comma '','' 0 1))) \<and>
   map_option fst (parseArgument example_numlib (CLIParser (text_stream ''1,2,3 4''))) =
     Some (Inr (Arg_IntegerVector [1, 2, 3])) \<and>
   map_option fst (parseArgument example_numlib (CLIParser (text_stream ''1,2 3''))) =
     Some (Inl (UnexpectedTokenType Tok_Comma (mk_token Tok_Integer ''3'' 4 5))) \<and>
   parse_text (''cmd 1,2,3 4'' @ [LF]) =
     Some (Inr \<lparr>name = ''cmd'', arguments = [Arg_IntegerVector [1, 2, 3], Arg_Integer 4]\<rparr>) \<and>
   parse_text (''cmd 1,2 3'' @ [LF]) =
     Some (Inl (UnexpectedTokenType Tok_Comma (mk_token Tok_Integer ''3'' 8 9)))"
proof -
  let ?L = example_numlib
  let ?t3 = "mk_token Tok_Integer ''3'' 0 1"
  let ?tc = "mk_token Tok_Comma '','' 0 1"
  let ?va = "\<lparr>comma = False, first_number = False,
         tokens = [mk_token Tok_Integer ''1'' 0 1, mk_token Tok_Integer ''2'' 2 3],
         integer_vector = True\<rparr>"
  let ?vb = "\<lparr>comma = False, first_number = False,
         tokens = [mk_token Tok_Integer ''1'' 0 1], integer_vector = True\<rparr>"
  let ?vc = "\<lparr>comma = True, first_number = False,
         tokens = [mk_token Tok_Integer ''1'' 0 1], integer_vector = True\<rparr>"
  obtain s1 where p3: "peekToken ?L (CLIParser (text_stream ''3'')) = Some (Inr ?t3, s1)"
    by (simp add: lexer_eval parser_eval)
  obtain s2 where pc: "peekToken ?L (CLIParser (text_stream '','')) = Some (Inr ?tc, s2)"
    by (simp add: lexer_eval parser_eval)
  have nt: "\<And>v b e. number_token (mk_token Tok_Integer v b e)"
    and tc: "tok_type ?tc = Tok_Comma"
    by (simp_all add: number_token_def mk_token_def)
  have iv: "parseIntegerVector ?L [mk_token Tok_Integer ''1'' 0 1, mk_token Tok_Integer ''2'' 2 3] =
              Inr (Arg_IntegerVector [1, 2])"
    by (simp add: parseIntegerVector_def mk_token_def stoll_def isSpace_def isDigit_def
        digits_val_def digit_val_def in_int64_def Let_def)
  from juxtaposed_numbers [where v = ?va, OF p3] nt iv
  have 1: "parseNumberList_loop ?L ?va (CLIParser (text_stream ''3'')) =
      Some (Inr (Arg_IntegerVector [1, 2]), s1)"
    by simp
  from juxtaposed_numbers [where v = ?vb, OF p3] nt
  have 2: "parseNumberList_loop ?L ?vb (CLIParser (text_stream ''3'')) =
      Some (Inl (UnexpectedTokenType Tok_Comma ?t3), s1\<lparr>peeked_token := None\<rparr>)"
    by simp
  from juxtaposed_numbers [where v = ?vc, OF pc] tc
  have 3: "parseNumberList_loop ?L ?vc (CLIParser (text_stream '','')) =
      Some (Inl (UnexpectedTokenText ''number'' ?tc), s2\<lparr>peeked_token := None\<rparr>)"
    by simp
  obtain d1 where d: "reads_list ?L (CLIParser (text_stream ''1,2,3 4''))
      [Integer_number 1, Integer_number 2, Integer_number 3] d1"
    and "\<exists>d2. peekToken ?L d1 = Some (Inr (mk_token Tok_Integer ''4'' 6 7), d2)"
    by (simp add: lexer_eval parser_eval)
  then obtain d2 where pd: "peekToken ?L d1 = Some (Inr (mk_token Tok_Integer ''4'' 6 7), d2)"
    by blast
  from juxtaposed_numbers [where ?s0.0 = "CLIParser (text_stream ''1,2,3 4'')"
      and xs = "[Integer_number 1, Integer_number 2, Integer_number 3]", OF pd] nt d
  have 4: "parseArgument ?L (CLIParser (text_stream ''1,2,3 4'')) =
      Some (Inr (Arg_IntegerVector [1, 2, 3]), d2)"
    by (simp add: promoted_def)
  obtain e1 where e: "reads_list ?L (CLIParser (text_stream ''1,2 3''))
      [Integer_number 1, Integer_number 2] e1"
    and "\<exists>e2. peekToken ?L e1 = Some (Inr (mk_token Tok_Integer ''3'' 4 5), e2)"
    by (simp add: lexer_eval parser_eval)
  then obtain e2 where pe: "peekToken ?L e1 = Some (Inr (mk_token Tok_Integer ''3'' 4 5), e2)"
    by blast
  from juxtaposed_numbers [where ?s0.0 = "CLIParser (text_stream ''1,2 3'')"
      and xs = "[Integer_number 1, Integer_number 2]", OF pe] nt e
  have 5: "parseArgument ?L (CLIParser (text_stream ''1,2 3'')) =
      Some (Inl (UnexpectedTokenType Tok_Comma (mk_token Tok_Integer ''3'' 4 5)),
            e2\<lparr>peeked_token := None\<rparr>)"
    by simp
  have 6: "parse_text (''cmd 1,2,3 4'' @ [LF]) =
     Some (Inr \<lparr>name = ''cmd'', arguments = [Arg_IntegerVector [1, 2, 3], Arg_Integer 4]\<rparr>)"
    by (simp add: parse_text_def lexer_eval parser_eval)
  have 7: "parse_text (''cmd 1,2 3'' @ [LF]) =
     Some (Inl (UnexpectedTokenType Tok_Comma (mk_token Tok_Integer ''3'' 8 9)))"
    by (simp add: parse_text_def lexer_eval parser_eval)
  from 1 2 3 4 5 6 7 show ?thesis by simp
qed

section \<open>The error reporter\<close>

definition RED :: string where "RED = CHR 0x1B # ''[31m''"
definition RESET :: string where "RESET = CHR 0x1B # ''[0m''"

fun toString :: "token_type \<Rightarrow> string" where
  "toString Tok_Identifier = ''identifier''"
| "toString Tok_String = ''string''"
| "toString Tok_Integer = ''integer''"
| "toString Tok_Float = ''float''"
| "toString Tok_LeftParen = ''left paren''"
| "toString Tok_RightParen = ''right paren''"
| "toString Tok_LeftBracket = ''left bracket''"
| "toString Tok_RightBracket = ''right bracket''"
| "toString Tok_LeftCurly = ''left curly''"
| "toString Tok_RightCurly = ''right curly''"
| "toString Tok_Comma = ''comma''"
| "toString Tok_EndOfLine = ''end of line''"
| "toString Tok_Comment = ''comment''"
| "toString Tok_EndOfFile = ''end of file''"
| "toString Tok_Unknown = ''unknown''"

text \<open>
  \<open>colorString\<close> colours each line of a text by itself; the empty text, and the empty rest
  after a final line feed, get nothing.  (It never looks at the option \<open>color_output\<close>.)
\<close>

lemma tl_dropWhile_shorter: "str \<noteq> [] \<Longrightarrow> length (tl (dropWhile P str)) < length str"
proof -
  assume "str \<noteq> []"
  then have "0 < length str" by simp
  moreover have "length (tl (dropWhile P str)) = length (dropWhile P str) - 1" by simp
  moreover have "length (dropWhile P str) \<le> length str" by (rule length_dropWhile_le)
  ultimately show ?thesis by arith
qed

function colorString :: "string \<Rightarrow> string \<Rightarrow> string" where
  "colorString str color =
     (if str = [] then []
      else if dropWhile (\<lambda>c. c \<noteq> LF) str = []
        then color @ str @ RESET
        else color @ takeWhile (\<lambda>c. c \<noteq> LF) str @ RESET @ [LF] @
             colorString (tl (dropWhile (\<lambda>c. c \<noteq> LF) str)) color)"
  by pat_completeness auto
termination
  by (relation "measure (\<lambda>(str, color). length str)")
     (simp_all add: tl_dropWhile_shorter del: length_tl)

declare colorString.simps [simp del]

definition addPrefix :: "string \<Rightarrow> string \<Rightarrow> string" where
  "addPrefix prefix str = concat (map (\<lambda>c. if c = LF then LF # prefix else [c]) str)"

text \<open>
  \<open>std::string::substr\<close> throws when the start is beyond the end of the text (\<open>None\<close>); a
  negative \<open>int64_t\<close> given for a \<open>size_t\<close> is a huge number: as a start it is beyond the
  end, as a count it takes all that is left.
\<close>

definition substr :: "string \<Rightarrow> int \<Rightarrow> int \<Rightarrow> string option" where
  "substr str pos count =
     (if pos < 0 \<or> int (length str) < pos then None
      else if count < 0 then Some (drop (nat pos) str)
      else Some (take (nat count) (drop (nat pos) str)))"

definition substr_from :: "string \<Rightarrow> int \<Rightarrow> string option" where
  "substr_from str pos =
     (if pos < 0 \<or> int (length str) < pos then None else Some (drop (nat pos) str))"

definition highlight_begin :: "hook \<Rightarrow> int \<Rightarrow> int" where
  "highlight_begin h b = max (b - getPosition h) 0"

definition highlight_end :: "hook \<Rightarrow> int \<Rightarrow> int" where
  "highlight_end h e = min (e - getPosition h + 1) (int (length (getConsumedTokens h)))"

definition getSourceSnippetReport :: "hook \<Rightarrow> int \<Rightarrow> int \<Rightarrow> string option" where
  "getSourceSnippetReport h b e =
     (let source = getConsumedTokens h;
          hb = highlight_begin h b;
          he = highlight_end h e
      in if hb > he then Some []
         else
           (case (substr source 0 hb, substr source hb (he - hb), substr_from source he) of
              (Some before, Some marked, Some after) \<Rightarrow>
                (let report = before @ colorString marked RED @ after;
                     line_number_str = ''  '' @ to_string (getLineNumber h) @ '' '';
                     prefix = replicate (length line_number_str) CHR '' ''
                 in Some (line_number_str @ ''| '' @ addPrefix (prefix @ ''| '') report))
            | _ \<Rightarrow> None))"

text \<open>
  The five messages.  \<open>None\<close> is an exception of \<open>substr\<close> inside the snippet.
\<close>

definition withSource :: "parser \<Rightarrow> string \<Rightarrow> token \<Rightarrow> string option" where
  "withSource s report t =
     (if show_source s
      then map_option (\<lambda>snippet. report @ [LF] @ snippet)
             (getSourceSnippetReport (stream_hook s) (tok_begin t) (tok_end t))
      else Some report)"

definition quoted :: "token \<Rightarrow> string" where
  "quoted t = (if tok_type t = Tok_EndOfLine then [] else '' '' @ [CHR 0x27] @ tok_value t @ [CHR 0x27])"

definition unexpectedTokenError_expected :: "parser \<Rightarrow> string \<Rightarrow> token \<Rightarrow> string option" where
  "unexpectedTokenError_expected s expected actual =
     withSource s
       (colorString ''Error: '' RED @ ''expected '' @ expected @ '' at position '' @
        to_string (tok_begin actual) @ '' but got '' @ toString (tok_type actual) @ quoted actual)
       actual"

definition unexpectedTokenError :: "parser \<Rightarrow> token \<Rightarrow> string option" where
  "unexpectedTokenError s unexpected =
     withSource s
       (colorString ''Error: '' RED @ ''unexpected '' @ toString (tok_type unexpected) @
        '' at position '' @ to_string (tok_begin unexpected) @ quoted unexpected)
       unexpected"

definition mismatchedTokenError :: "parser \<Rightarrow> token \<Rightarrow> string option" where
  "mismatchedTokenError s unexpected =
     withSource s
       (colorString ''Error: '' RED @ ''mismatched '' @ toString (tok_type unexpected) @
        '' at position '' @ to_string (tok_begin unexpected) @ quoted unexpected)
       unexpected"

definition unknownTokenError :: "parser \<Rightarrow> token \<Rightarrow> string option" where
  "unknownTokenError s unknown =
     withSource s
       (colorString ''Error: '' RED @ ''unknown token at position '' @
        to_string (tok_begin unknown) @ '' '' @ [CHR 0x27] @ tok_value unknown @ [CHR 0x27])
       unknown"

text \<open>The message of an error that the reporter built, in the state where it was raised.\<close>

definition error_report :: "parser \<Rightarrow> error \<Rightarrow> string option" where
  "error_report s e =
     (case e of
        UnexpectedTokenType expected actual \<Rightarrow> unexpectedTokenError_expected s (toString expected) actual
      | UnexpectedTokenText expected actual \<Rightarrow> unexpectedTokenError_expected s expected actual
      | UnexpectedToken t \<Rightarrow> unexpectedTokenError s t
      | MismatchedToken t \<Rightarrow> mismatchedTokenError s t
      | UnknownToken t \<Rightarrow> unknownTokenError s t
      | _ \<Rightarrow> None)"

section \<open>Where a token lies in the buffer\<close>

text \<open>
  The buffer holds the characters between the checkpoint and the position of the stream.
  A token just read ends where the stream is, and begins at or after the checkpoint.
\<close>

definition hook_ok :: "hook \<Rightarrow> bool" where
  "hook_ok h = (stream_position h = position h + int (length (consumed_chars h)))"

definition token_at :: "hook \<Rightarrow> token \<Rightarrow> bool" where
  "token_at h t =
     (tok_end t = stream_position h \<and> position h \<le> tok_begin t \<and> tok_begin t \<le> tok_end t \<and>
      (tok_type t = Tok_EndOfFile \<longrightarrow> tok_begin t = tok_end t))"

definition parser_ok :: "parser \<Rightarrow> bool" where
  "parser_ok s =
     (hook_ok (stream_hook s) \<and>
      (case peeked_token s of None \<Rightarrow> True | Some t \<Rightarrow> token_at (stream_hook s) t))"

lemma parser_ok_CLIParser: "parser_ok (CLIParser r)"
  by (simp add: parser_ok_def hook_ok_def CLIParser_def CLIInputStreamHook_def)

lemma lexed_ok:
  assumes "hook_ok h" and "lexed h t h'"
  shows "hook_ok h' \<and> token_at h' t"
proof -
  from assms(2) obtain n where n: "n \<le> length (unread h)" "h' = hook_advance n h"
    "tok_end t = stream_position h + int n" "stream_position h \<le> tok_begin t"
    "tok_begin t \<le> tok_end t"
    "tok_type t = Tok_EndOfFile \<longrightarrow> tok_begin t = tok_end t"
    unfolding lexed_def by (auto split: if_splits)
  note a = hook_advance_props [OF n(1)]
  from a n assms(1) have "hook_ok h'" by (simp add: hook_ok_def)
  moreover from a n assms(1) have "token_at h' t" by (simp add: token_at_def hook_ok_def)
  ultimately show ?thesis by simp
qed

lemma peekToken_ok:
  assumes "parser_ok s" and "peekToken L s = Some (x, s1)"
  shows "parser_ok s1"
  using assms(2)
proof (cases rule: peekToken_cases)
  case (cached t)
  with assms(1) show ?thesis by simp
next
  case (fresh t h')
  with lexed_ok [of "stream_hook s" t h'] assms(1) show ?thesis
    by (simp add: parser_ok_def)
qed

lemma nextToken_ok:
  assumes "parser_ok s" and "nextToken L s = Some (x, s1)"
  shows "parser_ok s1 \<and> peeked_token s1 = None \<and> (\<forall>t. x = Inr t \<longrightarrow> token_at (stream_hook s1) t)"
  using assms(2)
proof (cases rule: nextToken_cases)
  case (cached t)
  with assms(1) show ?thesis by (simp add: parser_ok_def)
next
  case (fresh t h')
  with lexed_ok [of "stream_hook s" t h'] assms(1) show ?thesis
    by (simp add: parser_ok_def)
qed

lemma steps_ok: "steps L s s' \<Longrightarrow> parser_ok s \<Longrightarrow> parser_ok s'"
  by (induction rule: steps.induct) (auto dest: peekToken_ok nextToken_ok)

text \<open>An error that carries a token carries the token just read.\<close>

definition raised_ok :: "error \<Rightarrow> parser \<Rightarrow> bool" where
  "raised_ok e s =
     (parser_ok s \<and> (case error_token e of None \<Rightarrow> True | Some t \<Rightarrow> token_at (stream_hook s) t))"

lemma raised_ok: "parser_ok s \<Longrightarrow> raised L s e s' \<Longrightarrow> raised_ok e s'"
  unfolding raised_def raised_ok_def
  by (cases "error_token e") (auto dest: steps_ok nextToken_ok)

lemma outcome_ok:
  "parser_ok s \<Longrightarrow> outcome L s x s' \<Longrightarrow>
     (case x of Inl e \<Rightarrow> raised_ok e s' | Inr _ \<Rightarrow> parser_ok s')"
  by (cases x) (auto simp: outcome_def dest: raised_ok steps_ok)

text \<open>A turn of the loop of \<open>parseArgumentList\<close>, given the token in the lookahead.\<close>

lemma parseArgumentList_step_peeked:
  assumes p: "peekToken L s = Some (Inr pk, s1)"
  shows "parseArgumentList_step L (multiline, args) s =
     (if tok_type pk \<in> {Tok_Identifier, Tok_String, Tok_Integer, Tok_Float, Tok_LeftParen,
                         Tok_RightParen, Tok_LeftBracket, Tok_RightBracket}
        then pushArgument L multiline args s1
      else if tok_type pk = Tok_LeftCurly then
        (if multiline then Some (Inl (MismatchedToken pk), s1\<lparr>peeked_token := None\<rparr>)
         else Some (Inr (Inl (True, args)), s1\<lparr>peeked_token := None\<rparr>))
      else if tok_type pk = Tok_RightCurly then
        (if \<not> multiline then Some (Inl (MismatchedToken pk), s1\<lparr>peeked_token := None\<rparr>)
         else Some (Inr (Inl (False, args)), s1\<lparr>peeked_token := None\<rparr>))
      else if tok_type pk = Tok_Comma
        then Some (Inl (UnexpectedToken pk), s1\<lparr>peeked_token := None\<rparr>)
      else if tok_type pk = Tok_EndOfLine then
        (if \<not> multiline then Some (Inr (Inr args), s1\<lparr>peeked_token := None\<rparr>)
         else Some (Inr (Inl (multiline, args)), s1\<lparr>peeked_token := None\<rparr>))
      else if tok_type pk = Tok_Comment
        then Some (Inr (Inl (multiline, args)), s1\<lparr>peeked_token := None\<rparr>)
      else if tok_type pk = Tok_EndOfFile then
        (if multiline
         then Some (Inl (UnexpectedTokenType Tok_RightCurly pk), s1\<lparr>peeked_token := None\<rparr>)
         else Some (Inr (Inr args), s1))
      else Some (Inl (UnknownToken pk), s1\<lparr>peeked_token := None\<rparr>))"
  using nextToken_peeked [OF p]
  by (cases "tok_type pk")
     (simp_all add: parseArgumentList_step_def then_do_def p ret_def throw_def)

lemma parseArgumentList_step_peek:
  "parseArgumentList_step L v s = Some (x, s') \<Longrightarrow> \<exists>pk s1. peekToken L s = Some (Inr pk, s1)"
  unfolding parseArgumentList_step_def Let_def using peekToken_slot [of L s]
  by (cases "peekToken L s") (auto simp: then_do_def split: sum.splits)

lemma pushArgument_outcome: "pushArgument L m args s = Some (x, s') \<Longrightarrow> outcome L s x s'"
  unfolding pushArgument_def
  by (erule outcome_then_do) (auto intro: parseArgument_outcome outcome_ret)

lemma pushArgument_continues: "pushArgument L m args s \<noteq> Some (Inr (Inr r), s')"
  by (auto simp: pushArgument_def ret_def dest!: then_do_Some)

lemma outcome_took:
  assumes p: "peekToken L s = Some (Inr pk, s1)"
  shows "outcome L s (Inr a) (s1\<lparr>peeked_token := None\<rparr>)"
    and "error_token (E pk) = Some pk \<Longrightarrow> outcome L s (Inl (E pk)) (s1\<lparr>peeked_token := None\<rparr>)"
proof -
  note n = nextToken_peeked [OF p]
  have st: "steps L s (s1\<lparr>peeked_token := None\<rparr>)"
    using steps_next [OF steps_peek [OF steps_refl p] n] .
  then show "outcome L s (Inr a) (s1\<lparr>peeked_token := None\<rparr>)" by (simp add: outcome_def)
  assume "error_token (E pk) = Some pk"
  with st n steps_peek [OF steps_refl p] show "outcome L s (Inl (E pk)) (s1\<lparr>peeked_token := None\<rparr>)"
    by (auto simp: outcome_def raised_def)
qed

lemma parseArgumentList_step_outcome:
  assumes "parseArgumentList_step L v s = Some (x, s')"
  shows "outcome L s x s'"
proof -
  from parseArgumentList_step_peek [OF assms] obtain pk s1
    where p: "peekToken L s = Some (Inr pk, s1)" by blast
  obtain multiline args where v: "v = (multiline, args)" by (cases v)
  have sp: "steps L s s1" using steps_peek [OF steps_refl p] .
  have push: "pushArgument L multiline args s1 = Some (x, s') \<Longrightarrow> outcome L s x s'"
    using outcome_trans [OF sp] pushArgument_outcome by blast
  have eof: "outcome L s (Inr a) s1" for a :: "bool \<times> argument list + argument list"
    using sp by (simp add: outcome_def)
  note t = outcome_took [OF p]
  have eof': "s1 = s' \<Longrightarrow> outcome L s (Inr a) s'" for a :: "bool \<times> argument list + argument list"
    using eof by auto
  have t1: "s1\<lparr>peeked_token := None\<rparr> = s' \<Longrightarrow> outcome L s (Inr a) s'"
    for a :: "bool \<times> argument list + argument list"
    using outcome_took(1) [OF p, of a] by auto
  have t2: "s1\<lparr>peeked_token := None\<rparr> = s' \<Longrightarrow> error_token (E pk) = Some pk \<Longrightarrow>
              outcome L s (Inl (E pk) :: error + (bool \<times> argument list + argument list)) s'" for E
    using outcome_took(2) [OF p, of E] by auto
  have e: "error_token (MismatchedToken pk) = Some pk" "error_token (UnexpectedToken pk) = Some pk"
    "error_token (UnknownToken pk) = Some pk"
    "error_token (UnexpectedTokenType Tok_RightCurly pk) = Some pk"
    by (simp_all add: error_token_def)
  from assms have cases: "pushArgument L multiline args s1 = Some (x, s') \<or>
      (s1 = s' \<and> (\<exists>a. x = Inr a)) \<or>
      (s1\<lparr>peeked_token := None\<rparr> = s' \<and>
       ((\<exists>a. x = Inr a) \<or> x = Inl (MismatchedToken pk) \<or> x = Inl (UnexpectedToken pk) \<or>
        x = Inl (UnknownToken pk) \<or> x = Inl (UnexpectedTokenType Tok_RightCurly pk)))"
    unfolding v parseArgumentList_step_peeked [OF p]
    by (auto split: if_splits)
  then show ?thesis
    using push eof' t1 t2 [of MismatchedToken] t2 [of UnexpectedToken] t2 [of UnknownToken]
      t2 [of "UnexpectedTokenType Tok_RightCurly"] e
    by blast
qed

lemma parseArgumentList_step_return:
  assumes "parseArgumentList_step L v s = Some (Inr (Inr r), s')"
  shows "case peeked_token s' of None \<Rightarrow> True | Some t \<Rightarrow> tok_type t = Tok_EndOfFile"
proof -
  from parseArgumentList_step_peek [OF assms] obtain pk s1
    where p: "peekToken L s = Some (Inr pk, s1)" by blast
  obtain multiline args where v: "v = (multiline, args)" by (cases v)
  from assms peekToken_slot [OF p] pushArgument_continues [of L multiline args s1 r s']
  show ?thesis
    unfolding v parseArgumentList_step_peeked [OF p]
    by (auto split: if_splits)
qed

lemma parseArgumentList_loop_outcome:
  "parseArgumentList_loop L v s = Some (x, s') \<Longrightarrow>
     outcome L s x s' \<and>
     (\<forall>r. x = Inr r \<longrightarrow> (case peeked_token s' of None \<Rightarrow> True | Some t \<Rightarrow> tok_type t = Tok_EndOfFile))"
proof (induction L v s rule: parseArgumentList_loop.induct)
  case (1 L v s)
  from "1.prems" have t: "then_do (parseArgumentList_step L v s) (\<lambda>r s'.
       case r of
         Inl v' \<Rightarrow> parseArgumentList_loop L v' s'
       | Inr args \<Rightarrow> ret args s') = Some (x, s')"
    by (simp add: parseArgumentList_loop.simps [of L v s])
  from then_do_Some [OF t] show ?case
  proof (elim disjE exE conjE)
    fix e sa assume st: "parseArgumentList_step L v s = Some (Inl e, sa)" and "(x, s') = (Inl e, sa)"
    with parseArgumentList_step_outcome [OF st] show ?thesis by (auto simp: outcome_def)
  next
    fix a sa
    assume st: "parseArgumentList_step L v s = Some (Inr a, sa)"
      and k: "(case a of Inl v' \<Rightarrow> parseArgumentList_loop L v' sa | Inr args \<Rightarrow> ret args sa) = Some (x, s')"
    from parseArgumentList_step_outcome [OF st] have sa: "steps L s sa" by (rule outcome_steps)
    show ?thesis
    proof (cases a)
      case (Inl v')
      with k have "parseArgumentList_loop L v' sa = Some (x, s')" by simp
      from "1.IH" [OF st Inl this] outcome_trans [OF sa] show ?thesis by blast
    next
      case (Inr args)
      with k have x: "x = Inr args" "s' = sa" by (simp_all add: ret_def)
      have st': "parseArgumentList_step L v s = Some (Inr (Inr args), sa)" using st Inr by simp
      from parseArgumentList_step_return [OF st'] sa x show ?thesis
        by (simp add: outcome_def)
    qed
  qed
qed

lemma parser_ok_clear:
  assumes "parser_ok s"
    and "case peeked_token s of None \<Rightarrow> True | Some t \<Rightarrow> tok_type t = Tok_EndOfFile"
  shows "parser_ok (clear s)"
  using assms
  by (cases "peeked_token s")
     (auto simp: parser_ok_def hook_ok_def token_at_def clear_def clearConsumedTokens_def)

definition result_ok :: "error + 'a \<Rightarrow> parser \<Rightarrow> bool" where
  "result_ok x s = (case x of Inl e \<Rightarrow> raised_ok e s | Inr _ \<Rightarrow> parser_ok s)"

lemma returnCommand_ok:
  assumes ok: "parser_ok s" and r: "returnCommand L command s = Some (x, s')"
  shows "result_ok x s'"
proof -
  from r have "then_do (parseArgumentList L s) (\<lambda>args s'.
       ret (Inr (command\<lparr>arguments := args\<rparr>)) (clear s')) = Some (x, s')"
    by (simp add: returnCommand_def)
  from then_do_Some [OF this] show ?thesis
  proof (elim disjE exE conjE)
    fix e sa assume p: "parseArgumentList L s = Some (Inl e, sa)" and x: "(x, s') = (Inl e, sa)"
    from p have "outcome L s (Inl e :: error + argument list) sa"
      unfolding parseArgumentList_def using parseArgumentList_loop_outcome by blast
    from outcome_ok [OF ok this] x show ?thesis by (simp add: result_ok_def)
  next
    fix args sa assume p: "parseArgumentList L s = Some (Inr args, sa)"
      and k: "ret (Inr (command\<lparr>arguments := args\<rparr>)) (clear sa) = Some (x, s')"
    from p have o: "outcome L s (Inr args :: error + argument list) sa"
      and slot: "case peeked_token sa of None \<Rightarrow> True | Some t \<Rightarrow> tok_type t = Tok_EndOfFile"
      unfolding parseArgumentList_def using parseArgumentList_loop_outcome by blast+
    from outcome_ok [OF ok o] have "parser_ok sa" by simp
    from parser_ok_clear [OF this slot] k show ?thesis by (auto simp: ret_def result_ok_def)
  qed
qed

lemma parseCommand_step_ok:
  assumes ok: "parser_ok s" and st: "parseCommand_step L command s = Some (x, s')"
  shows "result_ok x s'"
proof -
  from parseCommand_step_peek [OF st] obtain pk s1 where p: "peekToken L s = Some (Inr pk, s1)"
    by blast
  from peekToken_ok [OF ok p] have ok1: "parser_ok s1" .
  from peekToken_slot [OF p] have slot: "peeked_token s1 = Some pk" by simp
  with ok1 have at: "token_at (stream_hook s1) pk" by (simp add: parser_ok_def)
  have ok2: "parser_ok (s1\<lparr>peeked_token := None\<rparr>)" using ok1 by (simp add: parser_ok_def)
  have okc: "parser_ok (clear (s1\<lparr>peeked_token := None\<rparr>))"
    using ok2 by (intro parser_ok_clear) simp_all
  have oke: "tok_type pk = Tok_EndOfFile \<Longrightarrow> parser_ok (clear s1)"
    using ok1 slot by (intro parser_ok_clear) simp_all
  have r1: "raised_ok (UnknownToken pk) (s1\<lparr>peeked_token := None\<rparr>)"
    and r2: "raised_ok (UnexpectedTokenType Tok_Identifier pk) (s1\<lparr>peeked_token := None\<rparr>)"
    using ok2 at by (simp_all add: raised_ok_def error_token_def)
  have rc: "returnCommand L command s1 = Some (x, s') \<Longrightarrow> result_ok x s'"
    using returnCommand_ok [OF ok1] .
  from st have "returnCommand L command s1 = Some (x, s') \<or>
      (tok_type pk = Tok_EndOfFile \<and> s' = clear s1 \<and> (\<exists>a. x = Inr a)) \<or>
      (s' = s1\<lparr>peeked_token := None\<rparr> \<and>
         ((\<exists>a. x = Inr a) \<or> x = Inl (UnknownToken pk) \<or>
          x = Inl (UnexpectedTokenType Tok_Identifier pk))) \<or>
      (s' = clear (s1\<lparr>peeked_token := None\<rparr>) \<and> (\<exists>a. x = Inr a))"
    unfolding parseCommand_step_peeked [OF p] by (auto split: if_splits)
  then show ?thesis
    using rc oke ok2 okc r1 r2 by (auto simp: result_ok_def)
qed

lemma parseCommand_loop_ok:
  "parser_ok s \<Longrightarrow> parseCommand_loop L command s = Some (x, s') \<Longrightarrow> result_ok x s'"
proof (induction L command s rule: parseCommand_loop.induct)
  case (1 L command s)
  from "1.prems"(2) have t: "then_do (parseCommand_step L command s) (\<lambda>r s'.
       case r of
         Inl command' \<Rightarrow> parseCommand_loop L command' s'
       | Inr result \<Rightarrow> ret result s') = Some (x, s')"
    by (simp add: parseCommand_loop.simps [of L command s])
  from then_do_Some [OF t] show ?case
  proof (elim disjE exE conjE)
    fix e sa assume st: "parseCommand_step L command s = Some (Inl e, sa)" and "(x, s') = (Inl e, sa)"
    with parseCommand_step_ok [OF "1.prems"(1) st] show ?thesis by (simp add: result_ok_def)
  next
    fix a sa
    assume st: "parseCommand_step L command s = Some (Inr a, sa)"
      and k: "(case a of Inl command' \<Rightarrow> parseCommand_loop L command' sa
               | Inr result \<Rightarrow> ret result sa) = Some (x, s')"
    from parseCommand_step_ok [OF "1.prems"(1) st] have sa: "parser_ok sa"
      by (simp add: result_ok_def)
    show ?thesis
    proof (cases a)
      case (Inl command')
      with k have "parseCommand_loop L command' sa = Some (x, s')" by simp
      from "1.IH" [OF st Inl sa this] show ?thesis .
    next
      case (Inr result)
      with k sa show ?thesis by (auto simp: ret_def result_ok_def)
    qed
  qed
qed

lemma getSourceSnippetReport_returns: "getSourceSnippetReport h b e \<noteq> None"
proof (cases "highlight_end h e < highlight_begin h b")
  case True
  then show ?thesis by (simp add: getSourceSnippetReport_def Let_def)
next
  case False
  moreover have "0 \<le> highlight_begin h b" by (simp add: highlight_begin_def)
  moreover have "highlight_end h e \<le> int (length (getConsumedTokens h))"
    by (simp add: highlight_end_def)
  ultimately show ?thesis
    by (simp add: getSourceSnippetReport_def Let_def substr_def substr_from_def)
qed

lemma getSourceSnippetReport_out_of_order:
  "highlight_end h e < highlight_begin h b \<Longrightarrow> getSourceSnippetReport h b e = Some []"
  by (simp add: getSourceSnippetReport_def Let_def)

lemma highlight_token_at:
  assumes "hook_ok h" and "token_at h t"
  shows "highlight_begin h (tok_begin t) = tok_begin t - getPosition h"
    and "highlight_end h (tok_end t) = tok_end t - getPosition h"
    and "0 \<le> tok_begin t - getPosition h"
    and "tok_begin t - getPosition h \<le> tok_end t - getPosition h"
    and "tok_end t - getPosition h = int (length (getConsumedTokens h))"
  using assms
  by (simp_all add: hook_ok_def token_at_def highlight_begin_def highlight_end_def
      getPosition_def getConsumedTokens_def)

lemma getSourceSnippetReport_token_at:
  assumes "hook_ok h" and "token_at h t"
  shows "getSourceSnippetReport h (tok_begin t) (tok_end t) =
     Some (''  '' @ to_string (getLineNumber h) @ '' | '' @
           addPrefix (replicate (length (''  '' @ to_string (getLineNumber h) @ '' '')) CHR '' '' @ ''| '')
             (take (nat (tok_begin t - getPosition h)) (getConsumedTokens h) @
              colorString (drop (nat (tok_begin t - getPosition h)) (getConsumedTokens h)) RED))"
  using highlight_token_at [OF assms]
  by (simp add: getSourceSnippetReport_def Let_def substr_def substr_from_def)

lemma parseCommand_ok:
  "parser_ok s \<Longrightarrow> parseCommand L s = Some (x, s') \<Longrightarrow> result_ok x s'"
  unfolding parseCommand_def by (rule parseCommand_loop_ok)

text \<open>The option \<open>show_source\<close> belongs to the reporter; no call changes it.\<close>

lemma steps_show_source: "steps L s s' \<Longrightarrow> show_source s' = show_source s"
  by (induction rule: steps.induct) (auto elim!: peekToken_cases nextToken_cases)

lemma returnCommand_show_source:
  assumes r: "returnCommand L command s = Some (x, s')"
  shows "show_source s' = show_source s"
proof -
  from r have "then_do (parseArgumentList L s) (\<lambda>args s'.
       ret (Inr (command\<lparr>arguments := args\<rparr>)) (clear s')) = Some (x, s')"
    by (simp add: returnCommand_def)
  from then_do_Some [OF this] show ?thesis
  proof (elim disjE exE conjE)
    fix e sa assume p: "parseArgumentList L s = Some (Inl e, sa)" and x: "(x, s') = (Inl e, sa)"
    from p have "outcome L s (Inl e :: error + argument list) sa"
      unfolding parseArgumentList_def using parseArgumentList_loop_outcome by blast
    from steps_show_source [OF outcome_steps [OF this]] x show ?thesis by simp
  next
    fix args sa assume p: "parseArgumentList L s = Some (Inr args, sa)"
      and k: "ret (Inr (command\<lparr>arguments := args\<rparr>)) (clear sa) = Some (x, s')"
    from p have "outcome L s (Inr args :: error + argument list) sa"
      unfolding parseArgumentList_def using parseArgumentList_loop_outcome by blast
    from steps_show_source [OF outcome_steps [OF this]] k show ?thesis
      by (auto simp: ret_def clear_def)
  qed
qed

lemma parseCommand_step_show_source:
  assumes st: "parseCommand_step L command s = Some (x, s')"
  shows "show_source s' = show_source s"
proof -
  from parseCommand_step_peek [OF st] obtain pk s1 where p: "peekToken L s = Some (Inr pk, s1)"
    by blast
  from p have s1: "show_source s1 = show_source s" by (auto elim!: peekToken_cases)
  from st have "returnCommand L command s1 = Some (x, s') \<or> s' = clear s1 \<or>
      s' = s1\<lparr>peeked_token := None\<rparr> \<or> s' = clear (s1\<lparr>peeked_token := None\<rparr>)"
    unfolding parseCommand_step_peeked [OF p] by (auto split: if_splits)
  with s1 show ?thesis by (auto simp: clear_def dest: returnCommand_show_source)
qed

lemma parseCommand_loop_show_source:
  "parseCommand_loop L command s = Some (x, s') \<Longrightarrow> show_source s' = show_source s"
proof (induction L command s rule: parseCommand_loop.induct)
  case (1 L command s)
  from "1.prems" have t: "then_do (parseCommand_step L command s) (\<lambda>r s'.
       case r of
         Inl command' \<Rightarrow> parseCommand_loop L command' s'
       | Inr result \<Rightarrow> ret result s') = Some (x, s')"
    by (simp add: parseCommand_loop.simps [of L command s])
  from then_do_Some [OF t] show ?case
  proof (elim disjE exE conjE)
    fix e sa assume st: "parseCommand_step L command s = Some (Inl e, sa)" and "(x, s') = (Inl e, sa)"
    with parseCommand_step_show_source [OF st] show ?thesis by simp
  next
    fix a sa
    assume st: "parseCommand_step L command s = Some (Inr a, sa)"
      and k: "(case a of Inl command' \<Rightarrow> parseCommand_loop L command' sa
               | Inr result \<Rightarrow> ret result sa) = Some (x, s')"
    note sa = parseCommand_step_show_source [OF st]
    show ?thesis
    proof (cases a)
      case (Inl command')
      with k have "parseCommand_loop L command' sa = Some (x, s')" by simp
      from "1.IH" [OF st Inl this] sa show ?thesis by simp
    next
      case (Inr result)
      with k sa show ?thesis by (auto simp: ret_def)
    qed
  qed
qed

lemma parseCommand_show_source:
  "parseCommand L s = Some (x, s') \<Longrightarrow> show_source s' = show_source s"
  unfolding parseCommand_def by (rule parseCommand_loop_show_source)

text \<open>
  The message of an error with a token is the message that the reporter builds without
  the source, followed, when \<open>show_source\<close> is set, by a line feed and the snippet for the
  bounds of the token.
\<close>

lemma error_report_snippet:
  assumes "error_token e = Some t"
  shows "\<exists>msg. error_report (s\<lparr>show_source := False\<rparr>) e = Some msg \<and>
     error_report s e =
       (if show_source s
        then map_option (\<lambda>snippet. msg @ [LF] @ snippet)
               (getSourceSnippetReport (stream_hook s) (tok_begin t) (tok_end t))
        else Some msg)"
  using assms
  by (cases e)
     (simp_all add: error_token_def error_report_def unexpectedTokenError_expected_def
        unexpectedTokenError_def mismatchedTokenError_def unknownTokenError_def withSource_def)

lemma highlight_out_of_order:
  "(highlight_end h e < highlight_begin h b) =
     (e + 1 < b \<or> getPosition h + int (length (getConsumedTokens h)) < b \<or> e + 1 < getPosition h)"
  by (auto simp: highlight_begin_def highlight_end_def)

text \<open>
  The range and the snippet as the description of the reporter words them: the recorded
  characters, with the range from the token's begin minus the checkpoint position to the
  token's end minus the checkpoint position, clamped to the recorded characters, coloured,
  and every line behind a gutter with the line number of the checkpoint.
\<close>

definition clamp :: "int \<Rightarrow> int \<Rightarrow> int \<Rightarrow> int" where
  "clamp lo hi x = max lo (min hi x)"

definition claimed_highlight :: "hook \<Rightarrow> token \<Rightarrow> int \<times> int" where
  "claimed_highlight h t =
     (clamp 0 (int (length (getConsumedTokens h))) (tok_begin t - getPosition h),
      clamp 0 (int (length (getConsumedTokens h))) (tok_end t - getPosition h))"

definition claimed_snippet :: "hook \<Rightarrow> token \<Rightarrow> string" where
  "claimed_snippet h t =
     (let source = getConsumedTokens h;
          b = nat (fst (claimed_highlight h t));
          e = nat (snd (claimed_highlight h t));
          gutter = ''  '' @ to_string (getLineNumber h) @ '' ''
      in gutter @ ''| '' @
         addPrefix (replicate (length gutter) CHR '' '' @ ''| '')
           (take b source @ colorString (take (e - b) (drop b source)) RED @ drop e source))"

lemma claimed_highlight_token_at:
  assumes "hook_ok h" and "token_at h t"
  shows "claimed_highlight h t = (tok_begin t - getPosition h, tok_end t - getPosition h)"
  using highlight_token_at [OF assms] by (simp add: claimed_highlight_def clamp_def)

lemma getSourceSnippetReport_claimed:
  assumes "hook_ok h" and "token_at h t"
  shows "getSourceSnippetReport h (tok_begin t) (tok_end t) = Some (claimed_snippet h t)"
  using highlight_token_at [OF assms]
  by (simp add: getSourceSnippetReport_token_at [OF assms] claimed_snippet_def Let_def
      claimed_highlight_token_at [OF assms])

lemma error_report_out_of_order:
  assumes "error_token e = Some t" and "show_source q"
  shows "\<exists>msg. error_report (q\<lparr>show_source := False\<rparr>) e = Some msg \<and>
     (\<exists>snippet. error_report q e = Some (msg @ [LF] @ snippet) \<and>
        (highlight_end (stream_hook q) (tok_end t) < highlight_begin (stream_hook q) (tok_begin t) \<longrightarrow>
           snippet = []))"
proof -
  from error_report_snippet [OF assms(1), of q] assms(2) obtain msg
    where m: "error_report (q\<lparr>show_source := False\<rparr>) e = Some msg"
      and r: "error_report q e = map_option (\<lambda>snippet. msg @ [LF] @ snippet)
               (getSourceSnippetReport (stream_hook q) (tok_begin t) (tok_end t))"
    by auto
  from getSourceSnippetReport_returns obtain sn
    where sn: "getSourceSnippetReport (stream_hook q) (tok_begin t) (tok_end t) = Some sn"
    by blast
  have "highlight_end (stream_hook q) (tok_end t) < highlight_begin (stream_hook q) (tok_begin t) \<longrightarrow>
      sn = []"
    using getSourceSnippetReport_out_of_order [of "stream_hook q" "tok_end t" "tok_begin t"] sn
    by auto
  with m r sn show ?thesis by auto
qed

text \<open>
  C5.  For every error that \<open>parseCommand\<close> raises with a token, from a parser whose hook
  and lookahead are in order and whose reporter shows the source (a new parser is so, and
  every call leaves it so), the message is the message without the source, a line feed,
  and the snippet of the description: the range highlighted in the recorded characters
  runs from the token's begin minus the checkpoint position to the token's end minus the
  checkpoint position.  \<open>getSourceSnippetReport\<close> computes the upper bound as the minimum of
  end minus position plus one and the number of recorded characters; the token of a raised
  error always ends where the stream stands, that is at the end of the recorded
  characters, so that the minimum is end minus position, and the clamping changes neither
  bound.  For any parser that shows the source and any error with a token, whatever its
  bounds, the message is built (nothing is raised), and when the range computed is out of
  order (the token begins more than one past its end, or beyond the recorded characters,
  or ends more than one before the checkpoint) the snippet in it is empty.
\<close>

theorem error_snippet_highlight:
  assumes "parser_ok s" and "show_source s"
    and "parseCommand L s = Some (Inl e, s')" and "error_token e = Some t"
  shows "parser_ok s' \<and> show_source s' \<and>
         (highlight_begin (stream_hook s') (tok_begin t),
          highlight_end (stream_hook s') (tok_end t)) = claimed_highlight (stream_hook s') t \<and>
         claimed_highlight (stream_hook s') t =
           (tok_begin t - getPosition (stream_hook s'), tok_end t - getPosition (stream_hook s')) \<and>
         0 \<le> tok_begin t - getPosition (stream_hook s') \<and>
         tok_begin t \<le> tok_end t \<and>
         tok_end t - getPosition (stream_hook s') = int (length (getConsumedTokens (stream_hook s'))) \<and>
         (\<exists>msg. error_report (s'\<lparr>show_source := False\<rparr>) e = Some msg \<and>
                error_report s' e = Some (msg @ [LF] @ claimed_snippet (stream_hook s') t)) \<and>
         (\<forall>q e' t'. show_source q \<and> error_token e' = Some t' \<longrightarrow>
            (highlight_end (stream_hook q) (tok_end t') < highlight_begin (stream_hook q) (tok_begin t')) =
              (tok_end t' + 1 < tok_begin t' \<or>
               getPosition (stream_hook q) + int (length (getConsumedTokens (stream_hook q))) < tok_begin t' \<or>
               tok_end t' + 1 < getPosition (stream_hook q)) \<and>
            (\<exists>msg. error_report (q\<lparr>show_source := False\<rparr>) e' = Some msg \<and>
               (\<exists>snippet. error_report q e' = Some (msg @ [LF] @ snippet) \<and>
                  (highlight_end (stream_hook q) (tok_end t') <
                     highlight_begin (stream_hook q) (tok_begin t') \<longrightarrow> snippet = []))))"
proof -
  from parseCommand_ok [OF assms(1,3)] assms(4)
  have ok: "parser_ok s'" and at: "token_at (stream_hook s') t"
    by (simp_all add: result_ok_def raised_ok_def)
  from parseCommand_show_source [OF assms(3)] assms(2) have sh: "show_source s'" by simp
  from ok have h: "hook_ok (stream_hook s')" by (simp add: parser_ok_def)
  note 1 = highlight_token_at [OF h at]
  note 2 = claimed_highlight_token_at [OF h at]
  from error_report_snippet [OF assms(4), of s'] sh getSourceSnippetReport_claimed [OF h at]
  have 3: "\<exists>msg. error_report (s'\<lparr>show_source := False\<rparr>) e = Some msg \<and>
                error_report s' e = Some (msg @ [LF] @ claimed_snippet (stream_hook s') t)"
    by auto
  have 4: "\<forall>q e' t'. show_source q \<and> error_token e' = Some t' \<longrightarrow>
            (highlight_end (stream_hook q) (tok_end t') < highlight_begin (stream_hook q) (tok_begin t')) =
              (tok_end t' + 1 < tok_begin t' \<or>
               getPosition (stream_hook q) + int (length (getConsumedTokens (stream_hook q))) < tok_begin t' \<or>
               tok_end t' + 1 < getPosition (stream_hook q)) \<and>
            (\<exists>msg. error_report (q\<lparr>show_source := False\<rparr>) e' = Some msg \<and>
               (\<exists>snippet. error_report q e' = Some (msg @ [LF] @ snippet) \<and>
                  (highlight_end (stream_hook q) (tok_end t') <
                     highlight_begin (stream_hook q) (tok_begin t') \<longrightarrow> snippet = [])))"
    using highlight_out_of_order error_report_out_of_order by blast
  have 5: "tok_begin t \<le> tok_end t" using at by (simp add: token_at_def)
  show ?thesis
    unfolding 1(1,2) 2 using 1(3,5) 3 4 5 ok sh by blast
qed

text \<open>
  The statement \<open>cmd }\<close>: the error carries the \<open>}\<close> at offsets 4 to 5, the recorded
  characters are \<open>cmd }\<close> from position 0 in line 1, and the message ends with the snippet
  in which the \<open>}\<close> is coloured.  For a token at offsets 9 to 10, beyond the recorded
  characters, the range is out of order and the message ends after the line feed.
\<close>

theorem error_snippet_highlight_witness:
  "map_option
     (\<lambda>r. (fst r,
           highlight_begin (stream_hook (snd r)) 4,
           highlight_end (stream_hook (snd r)) 5,
           error_report (snd r) (MismatchedToken (mk_token Tok_RightCurly ''}'' 4 5)),
           error_report (snd r) (MismatchedToken (mk_token Tok_RightCurly ''}'' 9 10))))
     (parseCommand example_numlib (CLIParser (text_stream (''cmd }'' @ [LF])))) =
   Some (Inl (MismatchedToken (mk_token Tok_RightCurly ''}'' 4 5)),
         4, 5,
         Some (RED @ ''Error: '' @ RESET @ ''mismatched right curly at position 4 '' @
               [CHR 0x27] @ ''}'' @ [CHR 0x27] @ [LF] @
               ''  1 | cmd '' @ RED @ ''}'' @ RESET),
         Some (RED @ ''Error: '' @ RESET @ ''mismatched right curly at position 9 '' @
               [CHR 0x27] @ ''}'' @ [CHR 0x27] @ [LF]))"
proof -
  let ?s = "CLIParser (text_stream (''cmd }'' @ [LF]))"
  let ?t = "mk_token Tok_RightCurly ''}'' 4 5"
  let ?u = "mk_token Tok_RightCurly ''}'' 9 10"
  have "\<exists>s'. parseCommand example_numlib ?s = Some (Inl (MismatchedToken ?t), s') \<and>
      getConsumedTokens (stream_hook s') = ''cmd }'' \<and>
      getPosition (stream_hook s') = 0 \<and> getLineNumber (stream_hook s') = 1"
    by (simp add: lexer_eval parser_eval getConsumedTokens_def getPosition_def getLineNumber_def)
  then obtain s' where c: "parseCommand example_numlib ?s = Some (Inl (MismatchedToken ?t), s')"
    and src: "getConsumedTokens (stream_hook s') = ''cmd }''"
    and pos: "getPosition (stream_hook s') = 0"
    and ln: "getLineNumber (stream_hook s') = 1"
    by blast
  have ok: "parser_ok ?s"
    by (simp add: parser_ok_def hook_ok_def CLIParser_def CLIInputStreamHook_def)
  have sh: "show_source ?s" by (simp add: CLIParser_def)
  have et: "error_token (MismatchedToken ?t) = Some ?t" "error_token (MismatchedToken ?u) = Some ?u"
    by (simp_all add: error_token_def)
  note T = error_snippet_highlight [OF ok sh c et(1)]
  have a: "highlight_begin (stream_hook s') 4 = 4" and b: "highlight_end (stream_hook s') 5 = 5"
    using T by (simp_all add: claimed_highlight_def clamp_def mk_token_def src pos)
  have col: "colorString ''}'' RED = RED @ ''}'' @ RESET"
    "colorString ''Error: '' RED = RED @ ''Error: '' @ RESET"
    by (simp_all add: colorString.simps [of "''}''"] colorString.simps [of "''Error: ''"] LF_def)
  have sn: "claimed_snippet (stream_hook s') ?t = ''  1 | cmd '' @ RED @ ''}'' @ RESET"
    by (simp add: claimed_snippet_def claimed_highlight_def clamp_def Let_def mk_token_def
        src pos ln to_string_def nat_to_string.simps digit_char_simps
        col [unfolded RED_def RESET_def] addPrefix_def LF_def RED_def RESET_def)
  have m: "error_report (s'\<lparr>show_source := False\<rparr>) (MismatchedToken (mk_token Tok_RightCurly ''}'' n (n + 1))) =
      Some (RED @ ''Error: '' @ RESET @ ''mismatched right curly at position '' @ to_string n @
            '' '' @ [CHR 0x27] @ ''}'' @ [CHR 0x27])" for n
    by (simp add: error_report_def mismatchedTokenError_def withSource_def quoted_def
        mk_token_def col)
  from T obtain msg where m1: "error_report (s'\<lparr>show_source := False\<rparr>) (MismatchedToken ?t) = Some msg"
    and r1: "error_report s' (MismatchedToken ?t) =
      Some (msg @ [LF] @ claimed_snippet (stream_hook s') ?t)"
    by blast
  from m1 m [of 4] have "msg = RED @ ''Error: '' @ RESET @ ''mismatched right curly at position '' @
      to_string 4 @ '' '' @ [CHR 0x27] @ ''}'' @ [CHR 0x27]"
    by simp
  with r1 have d: "error_report s' (MismatchedToken ?t) =
      Some (RED @ ''Error: '' @ RESET @ ''mismatched right curly at position '' @ to_string 4 @
            '' '' @ [CHR 0x27] @ ''}'' @ [CHR 0x27] @ [LF] @ ''  1 | cmd '' @ RED @ ''}'' @ RESET)"
    by (simp only: sn append_assoc)
  from T have sh': "show_source s'" by blast
  from T have D: "\<forall>q e' t'. show_source q \<and> error_token e' = Some t' \<longrightarrow>
            (highlight_end (stream_hook q) (tok_end t') < highlight_begin (stream_hook q) (tok_begin t')) =
              (tok_end t' + 1 < tok_begin t' \<or>
               getPosition (stream_hook q) + int (length (getConsumedTokens (stream_hook q))) < tok_begin t' \<or>
               tok_end t' + 1 < getPosition (stream_hook q)) \<and>
            (\<exists>msg. error_report (q\<lparr>show_source := False\<rparr>) e' = Some msg \<and>
               (\<exists>snippet. error_report q e' = Some (msg @ [LF] @ snippet) \<and>
                  (highlight_end (stream_hook q) (tok_end t') <
                     highlight_begin (stream_hook q) (tok_begin t') \<longrightarrow> snippet = [])))"
    by (elim conjE)
  have oo: "highlight_end (stream_hook s') (tok_end ?u) < highlight_begin (stream_hook s') (tok_begin ?u)"
    by (simp add: highlight_begin_def highlight_end_def src pos mk_token_def)
  from D [rule_format, of s' "MismatchedToken ?u" ?u] sh' et(2) oo
  obtain msg2 where m2: "error_report (s'\<lparr>show_source := False\<rparr>) (MismatchedToken ?u) = Some msg2"
    and r2: "error_report s' (MismatchedToken ?u) = Some (msg2 @ [LF] @ [])"
    by blast
  from m2 m [of 9] have "msg2 = RED @ ''Error: '' @ RESET @ ''mismatched right curly at position '' @
      to_string 9 @ '' '' @ [CHR 0x27] @ ''}'' @ [CHR 0x27]"
    by simp
  with r2 have e: "error_report s' (MismatchedToken ?u) =
      Some (RED @ ''Error: '' @ RESET @ ''mismatched right curly at position '' @ to_string 9 @
            '' '' @ [CHR 0x27] @ ''}'' @ [CHR 0x27] @ [LF])"
    by (simp only: append_assoc append_Nil2)
  have n: "to_string 4 = ''4''" "to_string 9 = ''9''"
    by (simp_all add: to_string_def nat_to_string.simps digit_char_simps)
  show ?thesis unfolding c by (simp add: a b d e n)
qed

end
